theory Spec2Isabelle
  imports Main "HOL-Library.Signed_Division"
begin

section \<open>Change stream reader: data model\<close>

text \<open>
  A shallow embedding of \<^verbatim>\<open>changestreams/reader.go\<close>. The structs of the file are
  records, \<^verbatim>\<open>partitionState\<close> is a datatype, the \<^verbatim>\<open>states\<close> map is a partial
  function, and an \<^verbatim>\<open>error\<close> is a value. A pointer to a struct is the struct itself,
  and a pointer that the code compares with \<^verbatim>\<open>nil\<close> is an \<open>option\<close>.

  \<^verbatim>\<open>time.Time\<close> is the number of nanoseconds since the zero instant, so that
  \<^verbatim>\<open>IsZero\<close> is the comparison with \<open>0\<close>; \<^verbatim>\<open>time.Duration\<close> is a number of
  nanoseconds.
\<close>

type_synonym Time = int

type_synonym Duration = int

definition IsZero :: "Time \<Rightarrow> bool" where
  "IsZero t = (t = 0)"

text \<open>
  Errors. \<^verbatim>\<open>errors.New\<close> and \<^verbatim>\<open>fmt.Errorf\<close> without \<^verbatim>\<open>%w\<close> give an error that is
  its message; \<^verbatim>\<open>fmt.Errorf\<close> with \<^verbatim>\<open>%w\<close> wraps another error. An error that comes
  from the Spanner client, from a decoder or from the caller's callback is opaque.
\<close>

datatype error =
    ErrorString string
  | WrapError string error
  | Collaborator string

record NullJSON =
  Value :: string
  Valid :: bool

record ColumnType =
  Name :: string
  Type :: NullJSON
  IsPrimaryKey :: bool
  OrdinalPosition :: int

record Mod =
  Keys :: NullJSON
  NewValues :: NullJSON
  OldValues :: NullJSON

record DataChangeRecord =
  CommitTimestamp :: Time
  RecordSequence_dcr :: string
  ServerTransactionID :: string
  IsLastRecordInTransactionInPartition :: bool
  TableName :: string
  ColumnTypes :: "ColumnType list"
  Mods :: "Mod list"
  ModType :: string
  ValueCaptureType :: string
  NumberOfRecordsInTransaction :: int
  NumberOfPartitionsInTransaction :: int
  TransactionTag :: string
  IsSystemTransaction :: bool

record HeartbeatRecord =
  Timestamp :: Time

record ChildPartition =
  Token :: string
  ParentPartitionTokens :: "string list"

record ChildPartitionsRecord =
  StartTimestamp :: Time
  RecordSequence :: string
  ChildPartitions :: "ChildPartition list"

record ChangeRecord =
  DataChangeRecords :: "DataChangeRecord list"
  HeartbeatRecords :: "HeartbeatRecord list"
  ChildPartitionsRecords :: "ChildPartitionsRecord list"

record ReadResult =
  PartitionToken :: string
  ChangeRecords :: "ChangeRecord list"

record changeRecordPostgres =
  DataChangeRecord_pg :: "DataChangeRecord option"
  HeartbeatRecord_pg :: "HeartbeatRecord option"
  ChildPartitionsRecord_pg :: "ChildPartitionsRecord option"

datatype partitionState =
    partitionStateUnknown
  | partitionStateReading
  | partitionStateFinished

text \<open>
  Modelled from the spec: the type \<^verbatim>\<open>dialect\<close> and its constants
  \<^verbatim>\<open>dialectGoogleSQL\<close> and \<^verbatim>\<open>dialectPostgreSQL\<close> are declared outside
  \<^verbatim>\<open>reader.go\<close>. The spec speaks of a small closed set of strategies and of a
  configuration that names an unsupported dialect; \<open>dialectOther s\<close> is such a value,
  \<open>s\<close> being what \<^verbatim>\<open>%s\<close> prints for it.
\<close>

datatype dialect =
    dialectGoogleSQL
  | dialectPostgreSQL
  | dialectOther string

section \<open>The reader and its goroutines\<close>

text \<open>
  A call \<^verbatim>\<open>startRead(ctx, partitionToken, startTimestamp, f)\<close> runs in a goroutine of
  its own, started by \<^verbatim>\<open>r.group.Go\<close>. Between two operations on shared state (the
  \<^verbatim>\<open>states\<close> map under \<^verbatim>\<open>r.mu\<close>, and the group) it only works on its own local
  variables, so a goroutine is modelled by the control point it has reached together with
  the local variables that are live there:

  \<^item> \<open>RootClosure\<close>: the closure of lines 191-197, not yet run;
  \<^item> \<open>AtEntry tok start\<close>: line 202, \<^verbatim>\<open>startRead\<close> was called and has not run yet;
  \<^item> \<open>InDo tok recs\<close>: line 250, inside \<^verbatim>\<open>Do\<close>, waiting for the iterator;
    \<open>recs\<close> is \<^verbatim>\<open>childPartitionRecords\<close>;
  \<^item> \<open>AfterDo tok recs\<close>: line 278, \<^verbatim>\<open>Do\<close> returned \<^verbatim>\<open>nil\<close>;
  \<^item> \<open>ChildLoop tok todo\<close>: lines 280-291, the children the two nested loops have yet
    to visit, each with the \<^verbatim>\<open>childStartTimestamp\<close> of its record;
  \<^item> \<open>CallGo tok c todo\<close>: line 286, \<^verbatim>\<open>canReadChild\<close> returned true for \<open>c\<close>;
  \<^item> \<open>Returned tok e\<close>: the call returned \<open>e\<close> (\<open>None\<close> is \<^verbatim>\<open>nil\<close>).
\<close>

datatype task =
    RootClosure
  | AtEntry string Time
  | InDo string "ChildPartitionsRecord list"
  | AfterDo string "ChildPartitionsRecord list"
  | ChildLoop string "(Time \<times> ChildPartition) list"
  | CallGo string "Time \<times> ChildPartition" "(Time \<times> ChildPartition) list"
  | Returned string "error option"

text \<open>
  Modelled from the spec: \<^verbatim>\<open>errgroup.Group\<close> (golang.org/x/sync/errgroup) is the
  traversal coordinator of the spec, section 4.3. \<^verbatim>\<open>Go\<close> registers a new
  concurrently running unit of work and counts it as outstanding before it returns to
  its caller; a unit that returns is no longer outstanding, and the first error any unit
  reports is kept; \<^verbatim>\<open>Wait\<close> blocks until no unit is outstanding and returns that first
  error, or \<^verbatim>\<open>nil\<close>. \<open>goroutines\<close> lists every unit ever registered, in the order of
  registration; \<open>wg\<close> is the count of outstanding units; \<open>err\<close> is the first error.
\<close>

record Group =
  goroutines :: "task list"
  wg :: nat
  err :: "error option"

definition WithContext :: Group where
  "WithContext = \<lparr>goroutines = [], wg = 0, err = None\<rparr>"

definition Go :: "Group \<Rightarrow> task \<Rightarrow> Group" where
  "Go g t = g\<lparr>goroutines := goroutines g @ [t], wg := wg g + 1\<rparr>"

definition Done :: "Group \<Rightarrow> error option \<Rightarrow> Group" where
  "Done g e = g\<lparr>wg := wg g - 1, err := (case err g of None \<Rightarrow> e | Some e0 \<Rightarrow> Some e0)\<rparr>"

text \<open>\<open>Wait g\<close> is \<open>None\<close> while the call blocks, and \<open>Some e\<close> when it returns \<open>e\<close>.\<close>

definition Wait :: "Group \<Rightarrow> error option option" where
  "Wait g = (if wg g = 0 then Some (err g) else None)"

text \<open>
  The \<^verbatim>\<open>Reader\<close> struct. The Spanner client is a collaborator (see below) and the
  mutex is the atomicity of the steps; \<open>group_ptr\<close> is the field \<^verbatim>\<open>group\<close>, a pointer
  that is \<^verbatim>\<open>nil\<close> until \<^verbatim>\<open>Read\<close> sets it.
\<close>

record Reader =
  streamID :: string
  startTimestamp :: Time
  endTimestamp :: Time
  heartbeatInterval :: Duration
  dialect :: dialect
  states :: "string \<rightharpoonup> partitionState"
  group_ptr :: "Group option"

record Config =
  StartTimestamp_cfg :: Time
  EndTimestamp_cfg :: Time
  HeartbeatInterval_cfg :: Duration

definition Second :: Duration where
  "Second = 1000000000"

definition Millisecond :: Duration where
  "Millisecond = 1000000"

text \<open>
  \<^verbatim>\<open>NewReaderWithConfig\<close>, lines 144-170. \<open>client\<close> is what
  \<^verbatim>\<open>spanner.NewClientWithConfig\<close> returned (\<open>None\<close>: a client) and \<open>detected\<close> what
  \<^verbatim>\<open>detectDialect\<close> returned.
\<close>

definition NewReaderWithConfig ::
    "error option \<Rightarrow> error + dialect \<Rightarrow> string \<Rightarrow> Config \<Rightarrow> error + Reader" where
  "NewReaderWithConfig client detected sid config =
     (case client of
        Some e \<Rightarrow> Inl e
      | None \<Rightarrow>
          (case detected of
             Inl e \<Rightarrow> Inl (WrapError ''failed to detect dialect: '' e)
           | Inr d \<Rightarrow>
               Inr \<lparr>streamID = sid,
                    startTimestamp = StartTimestamp_cfg config,
                    endTimestamp = EndTimestamp_cfg config,
                    heartbeatInterval =
                      (if HeartbeatInterval_cfg config = 0 then 10 * Second
                       else HeartbeatInterval_cfg config),
                    dialect = d,
                    states = Map.empty,
                    group_ptr = None\<rparr>))"

text \<open>\<^verbatim>\<open>NewReader\<close>, lines 135-141: the zero \<^verbatim>\<open>Config\<close>.\<close>

definition NewReader :: "error option \<Rightarrow> error + dialect \<Rightarrow> string \<Rightarrow> error + Reader" where
  "NewReader client detected sid =
     NewReaderWithConfig client detected sid
       \<lparr>StartTimestamp_cfg = 0, EndTimestamp_cfg = 0, HeartbeatInterval_cfg = 0\<rparr>"

subsection \<open>The partition registry\<close>

text \<open>
  Lines 296-325. Each of the three functions holds \<^verbatim>\<open>r.mu\<close> from its first statement
  to its return, so each is one atomic function of the reader.
\<close>

definition markStateReading :: "Reader \<Rightarrow> string \<Rightarrow> bool \<times> Reader" where
  "markStateReading r partitionToken =
     (case states r partitionToken of
        Some _ \<Rightarrow> (False, r)
      | None \<Rightarrow> (True, r\<lparr>states := (states r)(partitionToken \<mapsto> partitionStateReading)\<rparr>))"

definition markStateFinished :: "Reader \<Rightarrow> string \<Rightarrow> Reader" where
  "markStateFinished r partitionToken =
     r\<lparr>states := (states r)(partitionToken \<mapsto> partitionStateFinished)\<rparr>"

text \<open>
  \<^verbatim>\<open>r.states[parent]\<close>: reading a key that the map does not hold gives the zero value
  of \<^verbatim>\<open>partitionState\<close>, which is \<^verbatim>\<open>partitionStateUnknown\<close>.
\<close>

definition index :: "(string \<rightharpoonup> partitionState) \<Rightarrow> string \<Rightarrow> partitionState" where
  "index m k = (case m k of None \<Rightarrow> partitionStateUnknown | Some s \<Rightarrow> s)"

fun parentsLoop :: "(string \<rightharpoonup> partitionState) \<Rightarrow> string list \<Rightarrow> bool" where
  "parentsLoop m [] = True"
| "parentsLoop m (parent # rest) =
     (if index m parent \<noteq> partitionStateFinished then False else parentsLoop m rest)"

definition canReadChild :: "Reader \<Rightarrow> ChildPartition \<Rightarrow> bool" where
  "canReadChild r child = parentsLoop (states r) (ParentPartitionTokens child)"

subsection \<open>Collaborators\<close>

text \<open>
  The Spanner client, the row decoders of the client library and \<^verbatim>\<open>encoding/json\<close>
  are outside the repository. What they return is an input of the model: the decoders
  are functions of the row, and what the row iterator and the caller's callback
  \<^verbatim>\<open>f\<close> return is chosen anew at every step (see \<open>choice\<close> below), so that every
  behaviour of the database, of the cancellation of \<^verbatim>\<open>ctx\<close> and of the caller is covered.
\<close>

record 'row collaborators =
  ToStructLenient :: "'row \<Rightarrow> error + ChangeRecord list"
  Column :: "'row \<Rightarrow> error + NullJSON"
  MarshalJSON :: "NullJSON \<Rightarrow> error + string"
  Unmarshal :: "string \<Rightarrow> error + changeRecordPostgres"

text \<open>What \<^verbatim>\<open>Next\<close> of the row iterator returns inside \<^verbatim>\<open>Do\<close>.\<close>

datatype 'row iterated =
    Row 'row
  | IteratorDone
  | NextError error

text \<open>
  One scheduling decision: the goroutine that runs next, and what the environment
  answers if that goroutine asks: the clock for \<^verbatim>\<open>time.Now()\<close>, the iterator for the
  next row, the caller's callback \<^verbatim>\<open>f\<close> for its result.
\<close>

record 'row choice =
  goroutine :: nat
  now :: Time
  iterator :: "'row iterated"
  f_returns :: "error option"

text \<open>What an observer of the run sees, each with the index of the goroutine.\<close>

datatype 'row event =
    Claim nat string bool
  | Produced nat 'row
  | Delivered nat ReadResult "error option"
  | Finished nat string
  | Checked nat ChildPartition bool
  | Spawned nat ChildPartition Time
  | Exit nat "error option"

text \<open>\<^verbatim>\<open>decodePostgresRow\<close>, lines 327-360.\<close>

definition decodePostgresRow :: "'row collaborators \<Rightarrow> 'row \<Rightarrow> error + ChangeRecord" where
  "decodePostgresRow env row =
     (case Column env row of
        Inl e \<Rightarrow> Inl e
      | Inr col \<Rightarrow>
          (case MarshalJSON env col of
             Inl e \<Rightarrow> Inl e
           | Inr jsonBytes \<Rightarrow>
               (case Unmarshal env jsonBytes of
                  Inl e \<Rightarrow> Inl e
                | Inr changeRecordPG \<Rightarrow>
                    Inr \<lparr>DataChangeRecords =
                           (case DataChangeRecord_pg changeRecordPG of
                              None \<Rightarrow> [] | Some d \<Rightarrow> [d]),
                         HeartbeatRecords =
                           (case HeartbeatRecord_pg changeRecordPG of
                              None \<Rightarrow> [] | Some h \<Rightarrow> [h]),
                         ChildPartitionsRecords =
                           (case ChildPartitionsRecord_pg changeRecordPG of
                              None \<Rightarrow> [] | Some c \<Rightarrow> [c])\<rparr>)))"

subsection \<open>The statement of \<^verbatim>\<open>startRead\<close>, lines 207-247\<close>

datatype param =
    TimeParam Time
  | StringParam string
  | IntParam int
  | NilParam

record Statement =
  SQL :: string
  Params :: "string \<rightharpoonup> param"

definition statement :: "Reader \<Rightarrow> string \<Rightarrow> Time \<Rightarrow> error + Statement" where
  "statement r partitionToken start =
     (case dialect r of
        dialectGoogleSQL \<Rightarrow>
          (let stmt = \<lparr>SQL = ''SELECT ChangeRecord FROM READ_'' @ streamID r @
                          ''(@start_timestamp, @end_timestamp, @partition_token, @heartbeat_millis_second)'',
                        Params = [''start_timestamp'' \<mapsto> TimeParam start,
                                  ''end_timestamp'' \<mapsto> TimeParam (endTimestamp r),
                                  ''partition_token'' \<mapsto> StringParam partitionToken,
                                  ''heartbeat_millis_second'' \<mapsto>
                                     IntParam (heartbeatInterval r sdiv Millisecond)]\<rparr>;
               stmt = (if IsZero (endTimestamp r)
                       then stmt\<lparr>Params := (Params stmt)(''end_timestamp'' \<mapsto> NilParam)\<rparr>
                       else stmt);
               stmt = (if partitionToken = []
                       then stmt\<lparr>Params := (Params stmt)(''partition_token'' \<mapsto> NilParam)\<rparr>
                       else stmt)
           in Inr stmt)
      | dialectPostgreSQL \<Rightarrow>
          (let stmt = \<lparr>SQL = ''SELECT * FROM spanner.read_json_'' @ streamID r @
                          ''($1, $2, $3, $4, null)'',
                        Params = [''p1'' \<mapsto> TimeParam start,
                                  ''p2'' \<mapsto> TimeParam (endTimestamp r),
                                  ''p3'' \<mapsto> StringParam partitionToken,
                                  ''p4'' \<mapsto> IntParam (heartbeatInterval r sdiv Millisecond)]\<rparr>;
               stmt = (if IsZero (endTimestamp r)
                       then stmt\<lparr>Params := (Params stmt)(''p2'' \<mapsto> NilParam)\<rparr>
                       else stmt);
               stmt = (if partitionToken = []
                       then stmt\<lparr>Params := (Params stmt)(''p3'' \<mapsto> NilParam)\<rparr>
                       else stmt)
           in Inr stmt)
      | dialectOther s \<Rightarrow> Inl (ErrorString (''unexpected dialect: '' @ s)))"

subsection \<open>The callback of \<^verbatim>\<open>Do\<close>, lines 250-274\<close>

definition decodeRow ::
    "'row collaborators \<Rightarrow> Reader \<Rightarrow> string \<Rightarrow> 'row \<Rightarrow> error + ReadResult" where
  "decodeRow env r partitionToken row =
     (case dialect r of
        dialectGoogleSQL \<Rightarrow>
          (case ToStructLenient env row of
             Inl e \<Rightarrow> Inl e
           | Inr records \<Rightarrow>
               Inr \<lparr>PartitionToken = partitionToken, ChangeRecords = records\<rparr>)
      | dialectPostgreSQL \<Rightarrow>
          (case decodePostgresRow env row of
             Inl e \<Rightarrow> Inl e
           | Inr changeRecord \<Rightarrow>
               Inr \<lparr>PartitionToken = partitionToken, ChangeRecords = [changeRecord]\<rparr>)
      | dialectOther s \<Rightarrow> Inl (ErrorString (''unexpected dialect: '' @ s)))"

text \<open>The loop of lines 267-271 over \<^verbatim>\<open>readResult.ChangeRecords\<close>.\<close>

fun appendChildPartitionsRecords ::
    "ChildPartitionsRecord list \<Rightarrow> ChangeRecord list \<Rightarrow> ChildPartitionsRecord list" where
  "appendChildPartitionsRecords childPartitionRecords [] = childPartitionRecords"
| "appendChildPartitionsRecords childPartitionRecords (changeRecord # rest) =
     appendChildPartitionsRecords
       (if length (ChildPartitionsRecords changeRecord) > 0
        then childPartitionRecords @ ChildPartitionsRecords changeRecord
        else childPartitionRecords)
       rest"

text \<open>
  The callback gives \<^verbatim>\<open>childPartitionRecords\<close> as it leaves it, the result it handed
  to \<^verbatim>\<open>f\<close> if it came to call \<^verbatim>\<open>f\<close>, and what it returns. \<open>f_result\<close> is what
  \<^verbatim>\<open>f\<close> returns if it is called.
\<close>

definition callback ::
    "'row collaborators \<Rightarrow> Reader \<Rightarrow> string \<Rightarrow> ChildPartitionsRecord list \<Rightarrow> 'row \<Rightarrow>
     error option \<Rightarrow> ChildPartitionsRecord list \<times> ReadResult option \<times> error option" where
  "callback env r partitionToken childPartitionRecords row f_result =
     (case decodeRow env r partitionToken row of
        Inl e \<Rightarrow> (childPartitionRecords, None, Some e)
      | Inr readResult \<Rightarrow>
          (appendChildPartitionsRecords childPartitionRecords (ChangeRecords readResult),
           Some readResult, f_result))"

subsection \<open>\<^verbatim>\<open>startRead\<close>, lines 202-294, one control point at a time\<close>

text \<open>
  Each function takes the index \<open>i\<close> of the goroutine and the reader, and gives the reader
  it leaves, the control point the goroutine reaches and the events it causes.

  The closure that \<^verbatim>\<open>Read\<close> passes to \<^verbatim>\<open>Go\<close>, lines 191-197: it calls
  \<^verbatim>\<open>startRead\<close> with the empty token.
\<close>

definition rootClosure :: "Reader \<Rightarrow> Time \<Rightarrow> task" where
  "rootClosure r clock =
     (let start = startTimestamp r;
          start = (if IsZero start then clock else start)
      in AtEntry [] start)"

text \<open>Lines 203-247: the claim, then the statement.\<close>

definition startRead_entry ::
    "nat \<Rightarrow> Reader \<Rightarrow> string \<Rightarrow> Time \<Rightarrow> Reader \<times> task \<times> 'row event list" where
  "startRead_entry i r partitionToken start =
     (case markStateReading r partitionToken of
        (False, r') \<Rightarrow>
          (r', Returned partitionToken None, [Claim i partitionToken False, Exit i None])
      | (True, r') \<Rightarrow>
          (case statement r' partitionToken start of
             Inl e \<Rightarrow>
               (r', Returned partitionToken (Some e),
                [Claim i partitionToken True, Exit i (Some e)])
           | Inr stmt \<Rightarrow> (r', InDo partitionToken [], [Claim i partitionToken True])))"

text \<open>
  Lines 250-276: one turn of the loop of \<^verbatim>\<open>Do\<close>. The iterator is done (\<^verbatim>\<open>Do\<close>
  returns \<^verbatim>\<open>nil\<close>), or it fails (\<^verbatim>\<open>Do\<close> returns the error), or it gives a row to
  the callback (\<^verbatim>\<open>Do\<close> returns what the callback returns, if that is an error).
\<close>

definition startRead_Do ::
    "'row collaborators \<Rightarrow> 'row choice \<Rightarrow> nat \<Rightarrow> Reader \<Rightarrow> string \<Rightarrow>
     ChildPartitionsRecord list \<Rightarrow> Reader \<times> task \<times> 'row event list" where
  "startRead_Do env ch i r partitionToken childPartitionRecords =
     (case iterator ch of
        IteratorDone \<Rightarrow> (r, AfterDo partitionToken childPartitionRecords, [])
      | NextError e \<Rightarrow> (r, Returned partitionToken (Some e), [Exit i (Some e)])
      | Row row \<Rightarrow>
          (case callback env r partitionToken childPartitionRecords row (f_returns ch) of
             (recs, delivered, result) \<Rightarrow>
               (r,
                (case result of
                   None \<Rightarrow> InDo partitionToken recs
                 | Some e \<Rightarrow> Returned partitionToken (Some e)),
                Produced i row #
                (case delivered of
                   None \<Rightarrow> []
                 | Some readResult \<Rightarrow> [Delivered i readResult result]) @
                (case result of
                   None \<Rightarrow> []
                 | Some e \<Rightarrow> [Exit i (Some e)]))))"

text \<open>
  The two nested loops of lines 280-291 visit the children of every record in order,
  each with the \<^verbatim>\<open>StartTimestamp\<close> of its record.
\<close>

definition children :: "ChildPartitionsRecord list \<Rightarrow> (Time \<times> ChildPartition) list" where
  "children childPartitionRecords =
     concat (map (\<lambda>childPartitionsRecord.
                    map (\<lambda>childPartition. (StartTimestamp childPartitionsRecord, childPartition))
                        (ChildPartitions childPartitionsRecord))
                 childPartitionRecords)"

text \<open>Line 278 (line 279 prints to the standard output, which is not modelled).\<close>

definition startRead_finish ::
    "nat \<Rightarrow> Reader \<Rightarrow> string \<Rightarrow> ChildPartitionsRecord list \<Rightarrow>
     Reader \<times> task \<times> 'row event list" where
  "startRead_finish i r partitionToken childPartitionRecords =
     (markStateFinished r partitionToken,
      ChildLoop partitionToken (children childPartitionRecords),
      [Finished i partitionToken])"

text \<open>Line 284, or line 293 when the loops are over.\<close>

fun startRead_loop ::
    "nat \<Rightarrow> Reader \<Rightarrow> string \<Rightarrow> (Time \<times> ChildPartition) list \<Rightarrow>
     Reader \<times> task \<times> 'row event list" where
  "startRead_loop i r partitionToken [] =
     (r, Returned partitionToken None, [Exit i None])"
| "startRead_loop i r partitionToken ((childStartTimestamp, childPartition) # todo) =
     (if canReadChild r childPartition
      then (r, CallGo partitionToken (childStartTimestamp, childPartition) todo,
            [Checked i childPartition True])
      else (r, ChildLoop partitionToken todo, [Checked i childPartition False]))"

text \<open>
  Lines 285-288: \<^verbatim>\<open>r.group.Go\<close> with a closure that calls \<^verbatim>\<open>startRead\<close> for the
  child's token and the record's start timestamp.
\<close>

definition startRead_Go ::
    "nat \<Rightarrow> Reader \<Rightarrow> string \<Rightarrow> Time \<times> ChildPartition \<Rightarrow> (Time \<times> ChildPartition) list \<Rightarrow>
     Reader \<times> task \<times> 'row event list" where
  "startRead_Go i r partitionToken c todo =
     (case c of
        (childStartTimestamp, partition') \<Rightarrow>
          (r\<lparr>group_ptr :=
               map_option (\<lambda>g. Go g (AtEntry (Token partition') childStartTimestamp))
                 (group_ptr r)\<rparr>,
           ChildLoop partitionToken todo,
           [Spawned i partition' childStartTimestamp]))"

text \<open>The goroutine \<open>i\<close> runs from the control point \<open>t\<close> to the next one.\<close>

fun resume ::
    "'row collaborators \<Rightarrow> 'row choice \<Rightarrow> nat \<Rightarrow> Reader \<Rightarrow> task \<Rightarrow>
     Reader \<times> task \<times> 'row event list" where
  "resume env ch i r RootClosure = (r, rootClosure r (now ch), [])"
| "resume env ch i r (AtEntry tok start) = startRead_entry i r tok start"
| "resume env ch i r (InDo tok recs) = startRead_Do env ch i r tok recs"
| "resume env ch i r (AfterDo tok recs) = startRead_finish i r tok recs"
| "resume env ch i r (ChildLoop tok todo) = startRead_loop i r tok todo"
| "resume env ch i r (CallGo tok c todo) = startRead_Go i r tok c todo"
| "resume env ch i r (Returned tok e) = (r, Returned tok e, [])"

text \<open>
  The group keeps the goroutine's new control point; when the function of the goroutine
  has returned, the group's wrapper reports its result.
\<close>

definition isReturned :: "task \<Rightarrow> bool" where
  "isReturned t = (case t of Returned tok e \<Rightarrow> True | _ \<Rightarrow> False)"

definition settle :: "Group \<Rightarrow> nat \<Rightarrow> task \<Rightarrow> Group" where
  "settle g i t =
     (let g' = g\<lparr>goroutines := (goroutines g)[i := t]\<rparr>
      in case t of Returned tok e \<Rightarrow> Done g' e | _ \<Rightarrow> g')"

text \<open>
  One step of the whole program: the goroutine the scheduler chose runs to its next
  control point. A goroutine that does not exist or has returned does nothing.
\<close>

definition step ::
    "'row collaborators \<Rightarrow> Reader \<Rightarrow> 'row choice \<Rightarrow> Reader \<times> 'row event list" where
  "step env r ch =
     (case group_ptr r of
        None \<Rightarrow> (r, [])
      | Some g \<Rightarrow>
          (let i = goroutine ch in
           if i < length (goroutines g) \<and> \<not> isReturned (goroutines g ! i)
           then (case resume env ch i r (goroutines g ! i) of
                   (r', t', evs) \<Rightarrow>
                     (r'\<lparr>group_ptr := map_option (\<lambda>g'. settle g' i t') (group_ptr r')\<rparr>, evs))
           else (r, [])))"

text \<open>A run under a schedule, with the events in the order they happened.\<close>

fun run ::
    "'row collaborators \<Rightarrow> Reader \<times> 'row event list \<Rightarrow> 'row choice list \<Rightarrow>
     Reader \<times> 'row event list" where
  "run env s [] = s"
| "run env (r, trace) (ch # sched) =
     (case step env r ch of (r', evs) \<Rightarrow> run env (r', trace @ evs) sched)"

subsection \<open>\<^verbatim>\<open>Read\<close>, lines 181-200\<close>

text \<open>
  Lines 182-197, up to the return of \<^verbatim>\<open>r.group.Go\<close>: the reader \<^verbatim>\<open>Read\<close> leaves,
  and the error it returns at once, if any.
\<close>

definition Read_enter :: "Reader \<Rightarrow> Reader \<times> error option" where
  "Read_enter r =
     (case group_ptr r of
        Some g \<Rightarrow> (r, Some (ErrorString ''reader has already been read''))
      | None \<Rightarrow> (r\<lparr>group_ptr := Some (Go WithContext RootClosure)\<rparr>, None))"

text \<open>
  \<^verbatim>\<open>Read\<close> under a schedule: the reader and the events at the end of the schedule, and
  what \<^verbatim>\<open>Read\<close> has returned by then (\<open>None\<close>: it is still blocked in
  \<^verbatim>\<open>group.Wait()\<close>).
\<close>

definition Read ::
    "'row collaborators \<Rightarrow> Reader \<Rightarrow> 'row choice list \<Rightarrow>
     (Reader \<times> 'row event list) \<times> error option option" where
  "Read env r sched =
     (case Read_enter r of
        (r', Some e) \<Rightarrow> ((r', []), Some (Some e))
      | (r', None) \<Rightarrow>
          (let s = run env (r', []) sched
           in (s, case group_ptr (fst s) of None \<Rightarrow> None | Some g \<Rightarrow> Wait g)))"

section \<open>Observations\<close>

text \<open>The goroutines of the reader's group, and the count of those outstanding.\<close>

definition tasks :: "Reader \<Rightarrow> task list" where
  "tasks r = (case group_ptr r of None \<Rightarrow> [] | Some g \<Rightarrow> goroutines g)"

definition outstanding :: "Reader \<Rightarrow> nat" where
  "outstanding r = (case group_ptr r of None \<Rightarrow> 0 | Some g \<Rightarrow> wg g)"

text \<open>The goroutine an event belongs to.\<close>

fun actor :: "'row event \<Rightarrow> nat" where
  "actor (Claim i tok b) = i"
| "actor (Produced i row) = i"
| "actor (Delivered i readResult e) = i"
| "actor (Finished i tok) = i"
| "actor (Checked i c b) = i"
| "actor (Spawned i c ts) = i"
| "actor (Exit i e) = i"

text \<open>
  What one goroutine did, read off the events: the rows its iterator produced, the
  results it handed to \<^verbatim>\<open>f\<close>, the children for which \<^verbatim>\<open>canReadChild\<close> was true, and
  the children it passed to \<^verbatim>\<open>r.group.Go\<close>, each in the order of the events.
\<close>

definition history :: "nat \<Rightarrow> 'row event list \<Rightarrow> 'row event list" where
  "history i tr = filter (\<lambda>ev. actor ev = i) tr"

definition produced :: "nat \<Rightarrow> 'row event list \<Rightarrow> 'row list" where
  "produced i tr =
     concat (map (\<lambda>ev. case ev of Produced j row \<Rightarrow> if j = i then [row] else [] | _ \<Rightarrow> []) tr)"

definition delivered :: "nat \<Rightarrow> 'row event list \<Rightarrow> ReadResult list" where
  "delivered i tr =
     concat (map (\<lambda>ev. case ev of Delivered j readResult e \<Rightarrow> if j = i then [readResult] else []
                        | _ \<Rightarrow> []) tr)"

definition eligible :: "nat \<Rightarrow> 'row event list \<Rightarrow> ChildPartition list" where
  "eligible i tr =
     concat (map (\<lambda>ev. case ev of Checked j c b \<Rightarrow> if j = i \<and> b then [c] else [] | _ \<Rightarrow> []) tr)"

definition spawned :: "nat \<Rightarrow> 'row event list \<Rightarrow> ChildPartition list" where
  "spawned i tr =
     concat (map (\<lambda>ev. case ev of Spawned j c ts \<Rightarrow> if j = i then [c] else [] | _ \<Rightarrow> []) tr)"

text \<open>
  The loop over the children, read off the events of a goroutine: the children it asked
  \<^verbatim>\<open>canReadChild\<close> about, the answers it got, and the children it passed to
  \<^verbatim>\<open>r.group.Go\<close>, each with the start timestamp it passed.
\<close>

definition checked :: "nat \<Rightarrow> 'row event list \<Rightarrow> ChildPartition list" where
  "checked i tr =
     concat (map (\<lambda>ev. case ev of Checked j c b \<Rightarrow> if j = i then [c] else [] | _ \<Rightarrow> []) tr)"

definition verdicts :: "nat \<Rightarrow> 'row event list \<Rightarrow> bool list" where
  "verdicts i tr =
     concat (map (\<lambda>ev. case ev of Checked j c b \<Rightarrow> if j = i then [b] else [] | _ \<Rightarrow> []) tr)"

definition spawnedAt :: "nat \<Rightarrow> 'row event list \<Rightarrow> (Time \<times> ChildPartition) list" where
  "spawnedAt i tr =
     concat (map (\<lambda>ev. case ev of Spawned j c ts \<Rightarrow> if j = i then [(ts, c)] else []
                        | _ \<Rightarrow> []) tr)"

text \<open>
  The children that the results a goroutine handed to \<^verbatim>\<open>f\<close> announce: every child
  partition of every child partitions record of every change record of every result, in
  the order of the results, each with the \<^verbatim>\<open>StartTimestamp\<close> of its record. This is
  written from the results alone, not from what \<^verbatim>\<open>startRead\<close> gathers.
\<close>

definition discovered :: "nat \<Rightarrow> 'row event list \<Rightarrow> (Time \<times> ChildPartition) list" where
  "discovered i tr =
     concat (map (\<lambda>readResult.
       concat (map (\<lambda>changeRecord.
         concat (map (\<lambda>rec. map (\<lambda>child. (StartTimestamp rec, child)) (ChildPartitions rec))
           (ChildPartitionsRecords changeRecord)))
         (ChangeRecords readResult)))
       (delivered i tr))"

text \<open>
  Every call of \<^verbatim>\<open>r.group.Go\<close> by \<^verbatim>\<open>startRead\<close>, by any goroutine, in the order of
  the calls: the child and the start timestamp.
\<close>

definition requests :: "'row event list \<Rightarrow> (ChildPartition \<times> Time) list" where
  "requests tr =
     concat (map (\<lambda>ev. case ev of Spawned j c ts \<Rightarrow> [(c, ts)] | _ \<Rightarrow> []) tr)"

text \<open>
  The goroutine runs \<^verbatim>\<open>startRead\<close> for the token; as long as the call has not begun,
  it holds the start timestamp too.
\<close>

fun registered :: "task \<Rightarrow> string \<Rightarrow> Time \<Rightarrow> bool" where
  "registered RootClosure tok ts = False"
| "registered (AtEntry k start) tok ts = (k = tok \<and> start = ts)"
| "registered (InDo k recs) tok ts = (k = tok)"
| "registered (AfterDo k recs) tok ts = (k = tok)"
| "registered (ChildLoop k todo) tok ts = (k = tok)"
| "registered (CallGo k c todo) tok ts = (k = tok)"
| "registered (Returned k e) tok ts = (k = tok)"

text \<open>The goroutines for which \<^verbatim>\<open>markStateReading\<close> of the token returned true.\<close>

definition claims :: "string \<Rightarrow> 'row event list \<Rightarrow> nat list" where
  "claims tok tr =
     concat (map (\<lambda>ev. case ev of Claim i t b \<Rightarrow> if t = tok \<and> b then [i] else [] | _ \<Rightarrow> []) tr)"

text \<open>The number of calls of \<^verbatim>\<open>r.group.Go\<close> by \<^verbatim>\<open>startRead\<close>.\<close>

definition spawns :: "'row event list \<Rightarrow> nat" where
  "spawns tr = length (filter (\<lambda>ev. case ev of Spawned i c ts \<Rightarrow> True | _ \<Rightarrow> False) tr)"

text \<open>The first error that a goroutine of the group returned.\<close>

definition firstError :: "Reader \<Rightarrow> error option" where
  "firstError r = (case group_ptr r of None \<Rightarrow> None | Some g \<Rightarrow> err g)"

text \<open>
  The states a token has in \<^verbatim>\<open>states\<close> during \<^verbatim>\<open>Read\<close> under a schedule: after the
  entry of \<^verbatim>\<open>Read\<close>, and after each step of the schedule.
\<close>

definition stateHistory ::
    "'row collaborators \<Rightarrow> Reader \<Rightarrow> 'row choice list \<Rightarrow> string \<Rightarrow> partitionState list" where
  "stateHistory env r0 sched tok =
     map (\<lambda>k. index (states (fst (fst (Read env r0 (take k sched))))) tok)
       [0..<Suc (length sched)]"

fun rank :: "partitionState \<Rightarrow> nat" where
  "rank partitionStateUnknown = 0"
| "rank partitionStateReading = 1"
| "rank partitionStateFinished = 2"

section \<open>Invariants of a run\<close>

text \<open>
  The events of a goroutine that can have happened when it is at a given control point.
\<close>

fun allowed :: "task \<Rightarrow> 'row event \<Rightarrow> bool" where
  "allowed RootClosure ev = False"
| "allowed (AtEntry tok start) ev = False"
| "allowed (InDo tok recs) ev =
     (case ev of Claim i t b \<Rightarrow> t = tok \<and> b | Produced i row \<Rightarrow> True
      | Delivered i rr res \<Rightarrow> res = None | _ \<Rightarrow> False)"
| "allowed (AfterDo tok recs) ev =
     (case ev of Claim i t b \<Rightarrow> t = tok \<and> b | Produced i row \<Rightarrow> True
      | Delivered i rr res \<Rightarrow> res = None | _ \<Rightarrow> False)"
| "allowed (ChildLoop tok todo) ev =
     (case ev of Claim i t b \<Rightarrow> t = tok \<and> b | Delivered i rr res \<Rightarrow> res = None
      | Finished i t \<Rightarrow> t = tok | Exit i x \<Rightarrow> False | _ \<Rightarrow> True)"
| "allowed (CallGo tok c todo) ev =
     (case ev of Claim i t b \<Rightarrow> t = tok \<and> b | Delivered i rr res \<Rightarrow> res = None
      | Finished i t \<Rightarrow> t = tok | Exit i x \<Rightarrow> False | _ \<Rightarrow> True)"
| "allowed (Returned tok None) ev =
     (case ev of Claim i t b \<Rightarrow> t = tok | Delivered i rr res \<Rightarrow> res = None
      | Finished i t \<Rightarrow> t = tok | Exit i x \<Rightarrow> x = None | _ \<Rightarrow> True)"
| "allowed (Returned tok (Some e)) ev =
     (case ev of Claim i t b \<Rightarrow> t = tok \<and> b | Produced i row \<Rightarrow> True
      | Delivered i rr res \<Rightarrow> res = None \<or> res = Some e | Exit i x \<Rightarrow> x = Some e
      | _ \<Rightarrow> False)"

text \<open>Every event belongs to a goroutine of the group and fits its control point.\<close>

definition inv_hist :: "Reader \<Rightarrow> 'row event list \<Rightarrow> bool" where
  "inv_hist r tr =
     (\<forall>ev\<in>set tr. actor ev < length (tasks r) \<and> allowed (tasks r ! actor ev) ev)"

text \<open>
  The goroutine has claimed the token and has not marked it finished; and the goroutine
  has claimed the token.
\<close>

fun owner :: "task \<Rightarrow> string \<Rightarrow> bool" where
  "owner (InDo k recs) tok = (k = tok)"
| "owner (AfterDo k recs) tok = (k = tok)"
| "owner (Returned k (Some e)) tok = (k = tok)"
| "owner t tok = False"

fun holder :: "task \<Rightarrow> string \<Rightarrow> bool" where
  "holder (InDo k recs) tok = (k = tok)"
| "holder (AfterDo k recs) tok = (k = tok)"
| "holder (ChildLoop k todo) tok = (k = tok)"
| "holder (CallGo k c todo) tok = (k = tok)"
| "holder (Returned k (Some e)) tok = (k = tok)"
| "holder t tok = False"

text \<open>
  A token that a goroutine owns is \<^verbatim>\<open>partitionStateReading\<close>, and no two goroutines own
  the same token.
\<close>

definition inv_own :: "Reader \<Rightarrow> bool" where
  "inv_own r =
     ((\<forall>i<length (tasks r). \<forall>tok. owner (tasks r ! i) tok \<longrightarrow>
         states r tok = Some partitionStateReading) \<and>
      (\<forall>i<length (tasks r). \<forall>j<length (tasks r). \<forall>tok.
         owner (tasks r ! i) tok \<and> owner (tasks r ! j) tok \<longrightarrow> i = j))"

text \<open>A goroutine past its claim has the successful claim among its events.\<close>

definition inv_claimed :: "Reader \<Rightarrow> 'row event list \<Rightarrow> bool" where
  "inv_claimed r tr =
     (\<forall>i<length (tasks r). \<forall>tok. holder (tasks r ! i) tok \<longrightarrow> Claim i tok True \<in> set tr)"

text \<open>A token without an entry was never claimed, and no token was claimed twice.\<close>

definition inv_once :: "Reader \<Rightarrow> 'row event list \<Rightarrow> bool" where
  "inv_once r tr =
     (\<forall>tok. (states r tok = None \<longrightarrow> claims tok tr = []) \<and> length (claims tok tr) \<le> 1)"

text \<open>A goroutine about to call \<^verbatim>\<open>Go\<close> for a child would still find it eligible.\<close>

definition inv_go :: "Reader \<Rightarrow> bool" where
  "inv_go r =
     (\<forall>i<length (tasks r). \<forall>tok ts c todo.
        tasks r ! i = CallGo tok (ts, c) todo \<longrightarrow> canReadChild r c)"

text \<open>The token of the call of \<^verbatim>\<open>startRead\<close> that the goroutine runs.\<close>

fun token :: "task \<Rightarrow> string" where
  "token RootClosure = []"
| "token (AtEntry tok start) = tok"
| "token (InDo tok recs) = tok"
| "token (AfterDo tok recs) = tok"
| "token (ChildLoop tok todo) = tok"
| "token (CallGo tok c todo) = tok"
| "token (Returned tok e) = tok"

text \<open>
  The results handed to \<^verbatim>\<open>f\<close> are the decoded rows, up to a last row that the decoder
  rejected.
\<close>

definition inv_deliv :: "'row collaborators \<Rightarrow> Reader \<Rightarrow> 'row event list \<Rightarrow> bool" where
  "inv_deliv env r tr =
     (\<forall>i<length (tasks r).
        map (decodeRow env r (token (tasks r ! i))) (produced i tr) = map Inr (delivered i tr) \<or>
        (\<exists>tok e. tasks r ! i = Returned tok (Some e) \<and>
           map (decodeRow env r tok) (produced i tr) = map Inr (delivered i tr) @ [Inl e]))"

text \<open>
  The children found eligible are those passed to \<^verbatim>\<open>Go\<close>, and the one about to be
  passed.
\<close>

definition inv_elig :: "Reader \<Rightarrow> 'row event list \<Rightarrow> bool" where
  "inv_elig r tr =
     (\<forall>i<length (tasks r).
        eligible i tr =
        spawned i tr @ (case tasks r ! i of CallGo tok c todo \<Rightarrow> [snd c] | _ \<Rightarrow> []))"

text \<open>
  The count of the group, the number of goroutines, the whole history of a goroutine whose
  claim failed, the eligibility of the children passed to \<^verbatim>\<open>Go\<close>, the absence of
  entries that are \<^verbatim>\<open>partitionStateUnknown\<close>, the token of the root goroutine, and the
  progress of the loop over the children: what is left to visit is what the results
  announce less what was checked, and what was passed to \<^verbatim>\<open>Go\<close> is what was found
  eligible.
\<close>

definition inv_wg :: "Reader \<Rightarrow> bool" where
  "inv_wg r = (outstanding r = length (filter (\<lambda>t. \<not> isReturned t) (tasks r)))"

definition inv_len :: "Reader \<Rightarrow> 'row event list \<Rightarrow> bool" where
  "inv_len r tr = (length (tasks r) = 1 + spawns tr)"

definition inv_fail :: "Reader \<Rightarrow> 'row event list \<Rightarrow> bool" where
  "inv_fail r tr =
     (\<forall>i tok. Claim i tok False \<in> set tr \<longrightarrow>
        history i tr = [Claim i tok False, Exit i None])"

definition inv_spawned :: "Reader \<Rightarrow> 'row event list \<Rightarrow> bool" where
  "inv_spawned r tr = (\<forall>ev\<in>set tr. case ev of Spawned i c ts \<Rightarrow> canReadChild r c | _ \<Rightarrow> True)"

definition inv_known :: "Reader \<Rightarrow> bool" where
  "inv_known r = (\<forall>tok. states r tok \<noteq> Some partitionStateUnknown)"

definition inv_root :: "Reader \<Rightarrow> bool" where
  "inv_root r =
     (0 < length (tasks r) \<and> (tasks r ! 0 = RootClosure \<or> token (tasks r ! 0) = []))"

definition inv_loop :: "Reader \<Rightarrow> 'row event list \<Rightarrow> bool" where
  "inv_loop r tr =
     (\<forall>i<length (tasks r).
        case tasks r ! i of
          InDo tok recs \<Rightarrow>
            children recs = discovered i tr \<and> verdicts i tr = [] \<and> spawnedAt i tr = []
        | AfterDo tok recs \<Rightarrow>
            children recs = discovered i tr \<and> verdicts i tr = [] \<and> spawnedAt i tr = []
        | ChildLoop tok todo \<Rightarrow>
            todo = drop (length (verdicts i tr)) (discovered i tr) \<and>
            length (verdicts i tr) \<le> length (discovered i tr) \<and>
            checked i tr = map (snd \<circ> fst) (zip (discovered i tr) (verdicts i tr)) \<and>
            spawnedAt i tr = map fst (filter snd (zip (discovered i tr) (verdicts i tr)))
        | CallGo tok c todo \<Rightarrow>
            todo = drop (length (verdicts i tr)) (discovered i tr) \<and>
            length (verdicts i tr) \<le> length (discovered i tr) \<and>
            checked i tr = map (snd \<circ> fst) (zip (discovered i tr) (verdicts i tr)) \<and>
            spawnedAt i tr @ [c] = map fst (filter snd (zip (discovered i tr) (verdicts i tr)))
        | Returned tok None \<Rightarrow>
            length (verdicts i tr) = length (discovered i tr) \<and>
            checked i tr = map snd (discovered i tr) \<and>
            spawnedAt i tr = map fst (filter snd (zip (discovered i tr) (verdicts i tr)))
        | _ \<Rightarrow> True)"

text \<open>Every call of \<^verbatim>\<open>Go\<close> has registered a goroutine for its child.\<close>

definition inv_reg :: "Reader \<Rightarrow> 'row event list \<Rightarrow> bool" where
  "inv_reg r tr =
     (length (tasks r) = Suc (length (requests tr)) \<and>
      (\<forall>k<length (requests tr).
         registered (tasks r ! Suc k) (Token (fst (requests tr ! k))) (snd (requests tr ! k))))"

definition invariant :: "'row collaborators \<Rightarrow> Reader \<Rightarrow> 'row event list \<Rightarrow> bool" where
  "invariant env r tr =
     (inv_hist r tr \<and> inv_own r \<and> inv_claimed r tr \<and> inv_once r tr \<and> inv_go r \<and>
      inv_deliv env r tr \<and> inv_elig r tr \<and> inv_wg r \<and> inv_len r tr \<and> inv_fail r tr \<and>
      inv_spawned r tr \<and> group_ptr r \<noteq> None)"

section \<open>A concrete run\<close>

text \<open>
  A reader for GoogleSQL with no start timestamp, a decoder whose rows are either the
  change records they decode to or undecodable, and a schedule in which the root
  partition announces the child \<open>A\<close> twice and the child \<open>B\<close>, whose second parent
  \<open>X\<close> never finishes; the first goroutine for \<open>A\<close> claims it and its stream fails, the
  second one finds it claimed.
\<close>

definition demo_env :: "(ChangeRecord list option) collaborators" where
  "demo_env =
     \<lparr>ToStructLenient =
        (\<lambda>row. case row of None \<Rightarrow> Inl (Collaborator ''row'') | Some records \<Rightarrow> Inr records),
      Column = (\<lambda>row. Inl (Collaborator ''column'')),
      MarshalJSON = (\<lambda>col. Inl (Collaborator ''marshal'')),
      Unmarshal = (\<lambda>bytes. Inl (Collaborator ''unmarshal''))\<rparr>"

definition demo_reader :: Reader where
  "demo_reader =
     \<lparr>streamID = ''Stream'', startTimestamp = 0, endTimestamp = 0,
      heartbeatInterval = 10 * Second, dialect = dialectGoogleSQL,
      states = Map.empty, group_ptr = None\<rparr>"

definition demo_A :: ChildPartition where
  "demo_A = \<lparr>Token = ''A'', ParentPartitionTokens = [[]]\<rparr>"

definition demo_B :: ChildPartition where
  "demo_B = \<lparr>Token = ''B'', ParentPartitionTokens = [[], ''X'']\<rparr>"

definition demo_records :: "ChangeRecord list" where
  "demo_records =
     [\<lparr>DataChangeRecords = [], HeartbeatRecords = [],
       ChildPartitionsRecords =
         [\<lparr>StartTimestamp = 7, RecordSequence = ''1'',
           ChildPartitions = [demo_A, demo_A, demo_B]\<rparr>]\<rparr>]"

definition demo_choice ::
    "nat \<Rightarrow> ChangeRecord list option iterated \<Rightarrow> ChangeRecord list option choice" where
  "demo_choice i it = \<lparr>goroutine = i, now = 5, iterator = it, f_returns = None\<rparr>"

definition demo_schedule :: "ChangeRecord list option choice list" where
  "demo_schedule =
     [demo_choice 0 IteratorDone, demo_choice 0 IteratorDone,
      demo_choice 0 (Row (Some demo_records)), demo_choice 0 IteratorDone,
      demo_choice 0 IteratorDone, demo_choice 0 IteratorDone, demo_choice 0 IteratorDone,
      demo_choice 0 IteratorDone, demo_choice 0 IteratorDone, demo_choice 0 IteratorDone,
      demo_choice 0 IteratorDone, demo_choice 1 IteratorDone, demo_choice 2 IteratorDone,
      demo_choice 1 (NextError (Collaborator ''stream''))]"

text \<open>A schedule in which the first row of the root partition cannot be decoded.\<close>

definition demo_undecodable :: "ChangeRecord list option choice list" where
  "demo_undecodable =
     [demo_choice 0 IteratorDone, demo_choice 0 IteratorDone, demo_choice 0 (Row None)]"

text \<open>
  A run in which the root partition delivers two results: the first announces the children
  \<^verbatim>\<open>A\<close> and \<^verbatim>\<open>B\<close> in two child partitions records, the second the child \<^verbatim>\<open>C\<close>.
  \<^verbatim>\<open>B\<close> has a second parent that is never finished.
\<close>

definition demo_C :: ChildPartition where
  "demo_C = \<lparr>Token = ''C'', ParentPartitionTokens = [[]]\<rparr>"

definition demo_first :: "ChangeRecord list" where
  "demo_first =
     [\<lparr>DataChangeRecords = [], HeartbeatRecords = [],
       ChildPartitionsRecords =
         [\<lparr>StartTimestamp = 7, RecordSequence = ''1'', ChildPartitions = [demo_A]\<rparr>,
          \<lparr>StartTimestamp = 8, RecordSequence = ''2'', ChildPartitions = [demo_B]\<rparr>]\<rparr>]"

definition demo_second :: "ChangeRecord list" where
  "demo_second =
     [\<lparr>DataChangeRecords = [], HeartbeatRecords = [],
       ChildPartitionsRecords =
         [\<lparr>StartTimestamp = 9, RecordSequence = ''3'', ChildPartitions = [demo_C]\<rparr>]\<rparr>]"

definition demo_split_schedule :: "ChangeRecord list option choice list" where
  "demo_split_schedule =
     [demo_choice 0 IteratorDone, demo_choice 0 IteratorDone,
      demo_choice 0 (Row (Some demo_first)), demo_choice 0 (Row (Some demo_second)),
      demo_choice 0 IteratorDone, demo_choice 0 IteratorDone, demo_choice 0 IteratorDone,
      demo_choice 0 IteratorDone, demo_choice 0 IteratorDone, demo_choice 0 IteratorDone,
      demo_choice 0 IteratorDone, demo_choice 0 IteratorDone, demo_choice 0 IteratorDone,
      demo_choice 1 IteratorDone]"


section \<open>One step, case by case\<close>

text \<open>
  What a step does to the \<^verbatim>\<open>states\<close> map, to the goroutines and to the count of the
  group, and the events it causes, for every control point the chosen goroutine can be at.
\<close>

lemma isReturned_simps [simp]:
  "isReturned RootClosure = False"
  "isReturned (AtEntry tok start) = False"
  "isReturned (InDo tok recs) = False"
  "isReturned (AfterDo tok recs) = False"
  "isReturned (ChildLoop tok todo) = False"
  "isReturned (CallGo tok c todo) = False"
  "isReturned (Returned tok e) = True"
  by (simp_all add: isReturned_def)

lemma tasks_settle:
  "tasks (r\<lparr>group_ptr := map_option (\<lambda>g'. settle g' i t) (group_ptr r0)\<rparr>) = (tasks r0)[i := t]"
  by (cases "group_ptr r0") (simp_all add: tasks_def settle_def Done_def Let_def split: task.splits)

lemma tasks_settle_Go:
  "group_ptr r0 \<noteq> None \<Longrightarrow>
   tasks (r\<lparr>group_ptr := map_option (\<lambda>g'. settle g' i t) (map_option (\<lambda>g. Go g c) (group_ptr r0))\<rparr>) =
     (tasks r0 @ [c])[i := t]"
  by (cases "group_ptr r0") (simp_all add: tasks_def settle_def Done_def Go_def Let_def split: task.splits)

lemma outstanding_settle:
  "outstanding (r\<lparr>group_ptr := map_option (\<lambda>g'. settle g' i t) (group_ptr r0)\<rparr>) =
     (if isReturned t then outstanding r0 - 1 else outstanding r0)"
  by (cases "group_ptr r0")
     (simp_all add: outstanding_def settle_def Done_def Let_def isReturned_def split: task.splits)

lemma step_idle:
  "\<not> (goroutine ch < length (tasks r) \<and> \<not> isReturned (tasks r ! goroutine ch)) \<Longrightarrow>
   step env r ch = (r, [])"
  by (cases "group_ptr r") (auto simp: step_def tasks_def Let_def)

lemma step_active:
  "goroutine ch < length (tasks r) \<Longrightarrow> \<not> isReturned (tasks r ! goroutine ch) \<Longrightarrow>
   step env r ch =
     (case resume env ch (goroutine ch) r (tasks r ! goroutine ch) of
        (r', t', evs) \<Rightarrow>
          (r'\<lparr>group_ptr := map_option (\<lambda>g'. settle g' (goroutine ch) t') (group_ptr r')\<rparr>, evs))"
  by (cases "group_ptr r") (auto simp: step_def tasks_def Let_def)

lemma step_cases [consumes 1, case_names idle root refused bad claimed drained failed undecoded
    delivered rejected finished exit eligible waiting go]:
  assumes "step env r ch = (r', evs)"
  obtains
    (idle) "goroutine ch < length (tasks r) \<longrightarrow> isReturned (tasks r ! goroutine ch)"
      "r' = r" "evs = []"
  | (root) "goroutine ch < length (tasks r)" "tasks r ! goroutine ch = RootClosure"
      "states r' = states r"
      "tasks r' = (tasks r)[goroutine ch := rootClosure r (now ch)]"
      "evs = []"
      "outstanding r' = outstanding r"
  | (refused) tok start where "goroutine ch < length (tasks r)"
      "tasks r ! goroutine ch = AtEntry tok start" "states r tok \<noteq> None"
      "states r' = states r"
      "tasks r' = (tasks r)[goroutine ch := Returned tok None]"
      "evs = [Claim (goroutine ch) tok False, Exit (goroutine ch) None]"
      "outstanding r' = outstanding r - 1"
  | (bad) tok start e where "goroutine ch < length (tasks r)"
      "tasks r ! goroutine ch = AtEntry tok start" "states r tok = None"
      "states r' = (states r)(tok \<mapsto> partitionStateReading)"
      "tasks r' = (tasks r)[goroutine ch := Returned tok (Some e)]"
      "evs = [Claim (goroutine ch) tok True, Exit (goroutine ch) (Some e)]"
      "outstanding r' = outstanding r - 1"
  | (claimed) tok start where "goroutine ch < length (tasks r)"
      "tasks r ! goroutine ch = AtEntry tok start" "states r tok = None"
      "states r' = (states r)(tok \<mapsto> partitionStateReading)"
      "tasks r' = (tasks r)[goroutine ch := InDo tok []]"
      "evs = [Claim (goroutine ch) tok True]"
      "outstanding r' = outstanding r"
  | (drained) tok recs where "goroutine ch < length (tasks r)"
      "tasks r ! goroutine ch = InDo tok recs" "iterator ch = IteratorDone"
      "states r' = states r"
      "tasks r' = (tasks r)[goroutine ch := AfterDo tok recs]"
      "evs = []"
      "outstanding r' = outstanding r"
  | (failed) tok recs e where "goroutine ch < length (tasks r)"
      "tasks r ! goroutine ch = InDo tok recs" "iterator ch = NextError e"
      "states r' = states r"
      "tasks r' = (tasks r)[goroutine ch := Returned tok (Some e)]"
      "evs = [Exit (goroutine ch) (Some e)]"
      "outstanding r' = outstanding r - 1"
  | (undecoded) tok recs row e where "goroutine ch < length (tasks r)"
      "tasks r ! goroutine ch = InDo tok recs" "iterator ch = Row row"
      "decodeRow env r tok row = Inl e"
      "states r' = states r"
      "tasks r' = (tasks r)[goroutine ch := Returned tok (Some e)]"
      "evs = [Produced (goroutine ch) row, Exit (goroutine ch) (Some e)]"
      "outstanding r' = outstanding r - 1"
  | (delivered) tok recs row readResult where "goroutine ch < length (tasks r)"
      "tasks r ! goroutine ch = InDo tok recs" "iterator ch = Row row"
      "decodeRow env r tok row = Inr readResult" "f_returns ch = None"
      "states r' = states r"
      "tasks r' = (tasks r)[goroutine ch :=
         InDo tok (appendChildPartitionsRecords recs (ChangeRecords readResult))]"
      "evs = [Produced (goroutine ch) row, Delivered (goroutine ch) readResult None]"
      "outstanding r' = outstanding r"
  | (rejected) tok recs row readResult e where "goroutine ch < length (tasks r)"
      "tasks r ! goroutine ch = InDo tok recs" "iterator ch = Row row"
      "decodeRow env r tok row = Inr readResult" "f_returns ch = Some e"
      "states r' = states r"
      "tasks r' = (tasks r)[goroutine ch := Returned tok (Some e)]"
      "evs = [Produced (goroutine ch) row, Delivered (goroutine ch) readResult (Some e),
              Exit (goroutine ch) (Some e)]"
      "outstanding r' = outstanding r - 1"
  | (finished) tok recs where "goroutine ch < length (tasks r)"
      "tasks r ! goroutine ch = AfterDo tok recs"
      "states r' = (states r)(tok \<mapsto> partitionStateFinished)"
      "tasks r' = (tasks r)[goroutine ch := ChildLoop tok (children recs)]"
      "evs = [Finished (goroutine ch) tok]"
      "outstanding r' = outstanding r"
  | (exit) tok where "goroutine ch < length (tasks r)"
      "tasks r ! goroutine ch = ChildLoop tok []"
      "states r' = states r"
      "tasks r' = (tasks r)[goroutine ch := Returned tok None]"
      "evs = [Exit (goroutine ch) None]"
      "outstanding r' = outstanding r - 1"
  | (eligible) tok ts c todo where "goroutine ch < length (tasks r)"
      "tasks r ! goroutine ch = ChildLoop tok ((ts, c) # todo)" "canReadChild r c"
      "states r' = states r"
      "tasks r' = (tasks r)[goroutine ch := CallGo tok (ts, c) todo]"
      "evs = [Checked (goroutine ch) c True]"
      "outstanding r' = outstanding r"
  | (waiting) tok ts c todo where "goroutine ch < length (tasks r)"
      "tasks r ! goroutine ch = ChildLoop tok ((ts, c) # todo)" "\<not> canReadChild r c"
      "states r' = states r"
      "tasks r' = (tasks r)[goroutine ch := ChildLoop tok todo]"
      "evs = [Checked (goroutine ch) c False]"
      "outstanding r' = outstanding r"
  | (go) tok ts c todo where "goroutine ch < length (tasks r)"
      "tasks r ! goroutine ch = CallGo tok (ts, c) todo"
      "states r' = states r"
      "tasks r' = (tasks r)[goroutine ch := ChildLoop tok todo] @ [AtEntry (Token c) ts]"
      "evs = [Spawned (goroutine ch) c ts]"
      "outstanding r' = outstanding r + 1"
proof (cases "goroutine ch < length (tasks r) \<and> \<not> isReturned (tasks r ! goroutine ch)")
  case False
  with assms have "r' = r" "evs = []" by (simp_all add: step_idle)
  with False show ?thesis by (intro idle) simp_all
next
  case True
  let ?i = "goroutine ch"
  from True have lt: "?i < length (tasks r)" and nr: "\<not> isReturned (tasks r ! ?i)" by simp_all
  note st = assms [unfolded step_active [OF lt nr]]
  show ?thesis
  proof (cases "tasks r ! ?i")
    case RootClosure
    with st have "states r' = states r" "tasks r' = (tasks r)[?i := rootClosure r (now ch)]" "evs = []"
          "outstanding r' = outstanding r"
      by (auto simp: outstanding_settle isReturned_def tasks_settle rootClosure_def Let_def)
    with lt RootClosure show ?thesis by (rule root)
  next
    case (AtEntry tok start)
    show ?thesis
    proof (cases "states r tok")
      case (Some s)
      with st AtEntry have "states r' = states r" "tasks r' = (tasks r)[?i := Returned tok None]"
        "evs = [Claim ?i tok False, Exit ?i None]"
          "outstanding r' = outstanding r - 1"
        by (auto simp: outstanding_settle isReturned_def tasks_settle startRead_entry_def markStateReading_def)
      with lt AtEntry Some show ?thesis by (intro refused [of tok start]) simp_all
    next
      case None
      show ?thesis
      proof (cases "statement (r\<lparr>states := (states r)(tok \<mapsto> partitionStateReading)\<rparr>) tok start")
        case (Inl e)
        with st AtEntry None have "states r' = (states r)(tok \<mapsto> partitionStateReading)"
          "tasks r' = (tasks r)[?i := Returned tok (Some e)]"
          "evs = [Claim ?i tok True, Exit ?i (Some e)]"
          "outstanding r' = outstanding r - 1"
          by (auto simp: outstanding_settle isReturned_def tasks_settle startRead_entry_def markStateReading_def)
        with lt AtEntry None show ?thesis by (intro bad [of tok start e]) simp_all
      next
        case (Inr stmt)
        with st AtEntry None have "states r' = (states r)(tok \<mapsto> partitionStateReading)"
          "tasks r' = (tasks r)[?i := InDo tok []]"
          "evs = [Claim ?i tok True]"
          "outstanding r' = outstanding r"
          by (auto simp: outstanding_settle isReturned_def tasks_settle startRead_entry_def markStateReading_def)
        with lt AtEntry None show ?thesis by (intro claimed [of tok start]) simp_all
      qed
    qed
  next
    case (InDo tok recs)
    show ?thesis
    proof (cases "iterator ch")
      case IteratorDone
      with st InDo have "states r' = states r" "tasks r' = (tasks r)[?i := AfterDo tok recs]" "evs = []"
          "outstanding r' = outstanding r"
        by (auto simp: outstanding_settle isReturned_def tasks_settle startRead_Do_def)
      with lt InDo IteratorDone show ?thesis by (intro drained [of tok recs]) simp_all
    next
      case (NextError e)
      with st InDo have "states r' = states r" "tasks r' = (tasks r)[?i := Returned tok (Some e)]"
        "evs = [Exit ?i (Some e)]"
          "outstanding r' = outstanding r - 1"
        by (auto simp: outstanding_settle isReturned_def tasks_settle startRead_Do_def)
      with lt InDo NextError show ?thesis by (intro failed [of tok recs e]) simp_all
    next
      case (Row row)
      show ?thesis
      proof (cases "decodeRow env r tok row")
        case (Inl e)
        with st InDo Row have "states r' = states r"
          "tasks r' = (tasks r)[?i := Returned tok (Some e)]"
          "evs = [Produced ?i row, Exit ?i (Some e)]"
          "outstanding r' = outstanding r - 1"
          by (auto simp: outstanding_settle isReturned_def tasks_settle startRead_Do_def callback_def)
        with lt InDo Row Inl show ?thesis by (intro undecoded [of tok recs row e]) simp_all
      next
        case (Inr readResult)
        show ?thesis
        proof (cases "f_returns ch")
          case None
          with st InDo Row Inr have "states r' = states r"
            "tasks r' = (tasks r)[?i := InDo tok (appendChildPartitionsRecords recs (ChangeRecords readResult))]"
            "evs = [Produced ?i row, Delivered ?i readResult None]"
          "outstanding r' = outstanding r"
            by (auto simp: outstanding_settle isReturned_def tasks_settle startRead_Do_def callback_def)
          with lt InDo Row Inr None show ?thesis by (intro delivered [of tok recs row readResult]) simp_all
        next
          case (Some e)
          with st InDo Row Inr have "states r' = states r"
            "tasks r' = (tasks r)[?i := Returned tok (Some e)]"
            "evs = [Produced ?i row, Delivered ?i readResult (Some e), Exit ?i (Some e)]"
          "outstanding r' = outstanding r - 1"
            by (auto simp: outstanding_settle isReturned_def tasks_settle startRead_Do_def callback_def)
          with lt InDo Row Inr Some show ?thesis by (intro rejected [of tok recs row readResult e]) simp_all
        qed
      qed
    qed
  next
    case (AfterDo tok recs)
    with st have "states r' = (states r)(tok \<mapsto> partitionStateFinished)"
      "tasks r' = (tasks r)[?i := ChildLoop tok (children recs)]"
      "evs = [Finished ?i tok]"
          "outstanding r' = outstanding r"
      by (auto simp: outstanding_settle isReturned_def tasks_settle startRead_finish_def markStateFinished_def)
    with lt AfterDo show ?thesis by (intro finished [of tok recs]) simp_all
  next
    case (ChildLoop tok todo)
    show ?thesis
    proof (cases todo)
      case Nil
      with st ChildLoop have "states r' = states r" "tasks r' = (tasks r)[?i := Returned tok None]"
        "evs = [Exit ?i None]"
          "outstanding r' = outstanding r - 1"
        by (auto simp: outstanding_settle isReturned_def tasks_settle)
      with lt ChildLoop Nil show ?thesis by (intro exit [of tok]) simp_all
    next
      case (Cons c0 rest)
      obtain ts c where c0: "c0 = (ts, c)" by (cases c0)
      show ?thesis
      proof (cases "canReadChild r c")
        case True
        with st ChildLoop Cons c0 have "states r' = states r"
          "tasks r' = (tasks r)[?i := CallGo tok (ts, c) rest]"
          "evs = [Checked ?i c True]"
          "outstanding r' = outstanding r"
          by (auto simp: outstanding_settle isReturned_def tasks_settle)
        with lt ChildLoop Cons c0 True show ?thesis by (intro eligible [of tok ts c rest]) simp_all
      next
        case False
        with st ChildLoop Cons c0 have "states r' = states r"
          "tasks r' = (tasks r)[?i := ChildLoop tok rest]"
          "evs = [Checked ?i c False]"
          "outstanding r' = outstanding r"
          by (auto simp: outstanding_settle isReturned_def tasks_settle)
        with lt ChildLoop Cons c0 False show ?thesis by (intro waiting [of tok ts c rest]) simp_all
      qed
    qed
  next
    case (CallGo tok c0 todo)
    obtain ts c where c0: "c0 = (ts, c)" by (cases c0)
    from lt obtain g where g: "group_ptr r = Some g" by (cases "group_ptr r") (auto simp: tasks_def)
    with st CallGo c0 lt have "states r' = states r"
      "tasks r' = (tasks r)[?i := ChildLoop tok todo] @ [AtEntry (Token c) ts]"
      "evs = [Spawned ?i c ts]"
          "outstanding r' = outstanding r + 1"
      by (auto simp: startRead_Go_def tasks_def outstanding_def settle_def Go_def list_update_append1)
    with lt CallGo c0 show ?thesis by (intro go [of tok ts c todo]) simp_all
  next
    case (Returned tok e)
    with nr show ?thesis by (simp add: isReturned_def)
  qed
qed

section \<open>Invariants are kept by every step\<close>

lemma run_append: "run env s (a @ b) = run env (run env s a) b"
  by (induction a arbitrary: s) (auto split: prod.splits)

lemma run_invariant:
  assumes init: "P r tr"
    and pres: "\<And>r tr ch r' evs. P r tr \<Longrightarrow> step env r ch = (r', evs) \<Longrightarrow> P r' (tr @ evs)"
    and run: "run env (r, tr) sched = (r', tr')"
  shows "P r' tr'"
  using init run
proof (induction sched arbitrary: r tr)
  case Nil
  then show ?case by simp
next
  case (Cons ch sched)
  obtain r1 evs where s: "step env r ch = (r1, evs)" by (cases "step env r ch")
  with Cons.prems have "run env (r1, tr @ evs) sched = (r', tr')" by simp
  moreover from pres [OF Cons.prems(1) s] have "P r1 (tr @ evs)" .
  ultimately show ?case by (rule Cons.IH [rotated])
qed

lemma inv_hist_step:
  assumes "inv_hist r tr" and "step env r ch = (r', evs)"
  shows "inv_hist r' (tr @ evs)"
  using assms(2,1)
  by (cases rule: step_cases)
     (auto simp: inv_hist_def nth_list_update nth_append rootClosure_def Let_def
        split: event.splits)

lemma parentsLoop_iff:
  "parentsLoop m ps \<longleftrightarrow> (\<forall>p\<in>set ps. m p = Some partitionStateFinished)"
  by (induction ps) (auto simp: index_def split: option.splits)

lemma canReadChild_iff:
  "canReadChild r c \<longleftrightarrow>
     (\<forall>p\<in>set (ParentPartitionTokens c). states r p = Some partitionStateFinished)"
  by (simp add: canReadChild_def parentsLoop_iff)

lemma resume_frame:
  assumes "resume env ch i r t = (r', t', evs)"
  shows "dialect r' = dialect r \<and> startTimestamp r' = startTimestamp r \<and>
         endTimestamp r' = endTimestamp r \<and> streamID r' = streamID r \<and>
         heartbeatInterval r' = heartbeatInterval r \<and>
         (group_ptr r \<noteq> None \<longrightarrow> group_ptr r' \<noteq> None)"
proof (cases t)
  case (AtEntry tok start)
  with assms show ?thesis
    by (auto simp: startRead_entry_def markStateReading_def split: option.splits sum.splits)
next
  case (InDo tok recs)
  with assms show ?thesis
    by (auto simp: startRead_Do_def split: iterated.splits prod.splits)
next
  case (AfterDo tok recs)
  with assms show ?thesis
    by (auto simp: startRead_finish_def markStateFinished_def)
next
  case (ChildLoop tok todo)
  with assms show ?thesis
    by (cases todo) (auto split: if_splits)
next
  case (CallGo tok c todo)
  with assms show ?thesis
    by (auto simp: startRead_Go_def split: prod.splits)
qed (use assms in auto)

lemma step_frame:
  assumes "step env r ch = (r', evs)"
  shows "dialect r' = dialect r" and "startTimestamp r' = startTimestamp r"
    and "endTimestamp r' = endTimestamp r" and "streamID r' = streamID r"
    and "heartbeatInterval r' = heartbeatInterval r"
    and "group_ptr r \<noteq> None \<Longrightarrow> group_ptr r' \<noteq> None"
  using assms resume_frame [of env ch "goroutine ch" r]
  by (auto simp: step_def Let_def split: option.splits if_splits prod.splits)

lemma decodeRow_cong: "dialect r' = dialect r \<Longrightarrow> decodeRow env r' = decodeRow env r"
  by (intro ext) (simp add: decodeRow_def)

lemma inv_go_step:
  assumes "inv_go r" and "step env r ch = (r', evs)"
  shows "inv_go r'"
  using assms(2,1)
  by (cases rule: step_cases)
     (auto simp: inv_go_def nth_list_update nth_append canReadChild_iff rootClosure_def Let_def
        split: if_splits)

lemma inv_own_step:
  assumes "inv_own r" and "step env r ch = (r', evs)"
  shows "inv_own r'"
  using assms(2,1)
  by (cases rule: step_cases)
     (auto simp: inv_own_def nth_list_update nth_append rootClosure_def Let_def
        split: if_splits)


lemma history_append [simp]: "history i (tr @ evs) = history i tr @ history i evs"
  by (simp add: history_def)

lemma produced_append [simp]: "produced i (tr @ evs) = produced i tr @ produced i evs"
  by (simp add: produced_def)

lemma delivered_append [simp]: "delivered i (tr @ evs) = delivered i tr @ delivered i evs"
  by (simp add: delivered_def)

lemma eligible_append [simp]: "eligible i (tr @ evs) = eligible i tr @ eligible i evs"
  by (simp add: eligible_def)

lemma spawned_append [simp]: "spawned i (tr @ evs) = spawned i tr @ spawned i evs"
  by (simp add: spawned_def)

lemma claims_append [simp]: "claims tok (tr @ evs) = claims tok tr @ claims tok evs"
  by (simp add: claims_def)

lemma spawns_append [simp]: "spawns (tr @ evs) = spawns tr + spawns evs"
  by (simp add: spawns_def)

lemma history_silent: "\<forall>ev\<in>set tr. actor ev \<noteq> i \<Longrightarrow> history i tr = []"
  by (simp add: history_def)

lemma produced_silent: "\<forall>ev\<in>set tr. actor ev \<noteq> i \<Longrightarrow> produced i tr = []"
  by (induction tr) (auto simp: produced_def split: event.splits)

lemma delivered_silent: "\<forall>ev\<in>set tr. actor ev \<noteq> i \<Longrightarrow> delivered i tr = []"
  by (induction tr) (auto simp: delivered_def split: event.splits)

lemma eligible_silent: "\<forall>ev\<in>set tr. actor ev \<noteq> i \<Longrightarrow> eligible i tr = []"
  by (induction tr) (auto simp: eligible_def split: event.splits)

lemma spawned_silent: "\<forall>ev\<in>set tr. actor ev \<noteq> i \<Longrightarrow> spawned i tr = []"
  by (induction tr) (auto simp: spawned_def split: event.splits)

lemma inv_hist_silent:
  "inv_hist r tr \<Longrightarrow> i < length (tasks r) \<Longrightarrow>
   tasks r ! i = RootClosure \<or> (\<exists>tok start. tasks r ! i = AtEntry tok start) \<Longrightarrow>
   \<forall>ev\<in>set tr. actor ev \<noteq> i"
  by (auto simp: inv_hist_def)

lemma inv_hist_fresh: "inv_hist r tr \<Longrightarrow> \<forall>ev\<in>set tr. actor ev \<noteq> length (tasks r)"
  by (auto simp: inv_hist_def)

lemma inv_claimed_step:
  assumes "inv_claimed r tr" and "step env r ch = (r', evs)"
  shows "inv_claimed r' (tr @ evs)"
  using assms(2,1)
  by (cases rule: step_cases)
     (auto simp: inv_claimed_def nth_list_update nth_append rootClosure_def Let_def
        split: if_splits)

lemma inv_once_step:
  assumes "inv_once r tr" and "step env r ch = (r', evs)"
  shows "inv_once r' (tr @ evs)"
  using assms(2,1)
  by (cases rule: step_cases) (auto simp: inv_once_def claims_def)

lemma inv_len_step:
  assumes "inv_len r tr" and "step env r ch = (r', evs)"
  shows "inv_len r' (tr @ evs)"
  using assms(2,1)
  by (cases rule: step_cases) (auto simp: inv_len_def spawns_def)

lemma filter_update_length:
  "i < length xs \<Longrightarrow>
   length (filter P (xs[i := y])) =
   length (filter P xs) + (if P y then 1 else 0) - (if P (xs ! i) then 1 else 0)"
proof (induction xs arbitrary: i)
  case Nil
  then show ?case by simp
next
  case (Cons x xs)
  show ?case
  proof (cases i)
    case 0
    then show ?thesis by simp
  next
    case (Suc j)
    with Cons.prems have j: "j < length xs" by simp
    have pos: "P (xs ! j) \<Longrightarrow> 0 < length (filter P xs)"
      using j by (auto simp: filter_empty_conv)
    from Cons.IH [OF j] Suc pos show ?thesis by auto
  qed
qed

lemma inv_wg_step:
  assumes "inv_wg r" and "step env r ch = (r', evs)"
  shows "inv_wg r'"
  using assms(2,1)
  by (cases rule: step_cases)
     (auto simp: inv_wg_def isReturned_def rootClosure_def Let_def filter_update_length)


lemma inv_elig_step:
  assumes "inv_elig r tr" and "inv_hist r tr" and "step env r ch = (r', evs)"
  shows "inv_elig r' (tr @ evs)"
  using assms(3,1) inv_hist_fresh [OF assms(2)]
  by (cases rule: step_cases)
     (auto simp: inv_elig_def nth_list_update nth_append rootClosure_def Let_def
        eligible_def spawned_def eligible_silent [unfolded eligible_def]
        spawned_silent [unfolded spawned_def] less_Suc_eq)

lemma produced_Nil [simp]: "produced i [] = []"
  by (simp add: produced_def)

lemma produced_Cons [simp]:
  "produced i (ev # tr) =
     (case ev of Produced j row \<Rightarrow> if j = i then [row] else [] | _ \<Rightarrow> []) @ produced i tr"
  by (simp add: produced_def)

lemma delivered_Nil [simp]: "delivered i [] = []"
  by (simp add: delivered_def)

lemma delivered_Cons [simp]:
  "delivered i (ev # tr) =
     (case ev of Delivered j readResult e \<Rightarrow> if j = i then [readResult] else [] | _ \<Rightarrow> []) @
     delivered i tr"
  by (simp add: delivered_def)

lemma inv_deliv_step:
  assumes "inv_deliv env r tr" and "inv_hist r tr" and "step env r ch = (r', evs)"
  shows "inv_deliv env r' (tr @ evs)"
proof -
  note dc = decodeRow_cong [OF step_frame(1) [OF assms(3)]]
  note fresh = inv_hist_fresh [OF assms(2)]
  from assms(3,1) show ?thesis
    by (cases rule: step_cases)
       (auto simp: inv_deliv_def dc nth_list_update nth_append rootClosure_def Let_def
          less_Suc_eq produced_silent [OF fresh] delivered_silent [OF fresh])
qed

lemma history_Nil [simp]: "history i [] = []"
  by (simp add: history_def)

lemma history_Cons [simp]:
  "history i (ev # tr) = (if actor ev = i then ev # history i tr else history i tr)"
  by (simp add: history_def)

lemma allowed_refused: "allowed t (Claim i tok False) \<Longrightarrow> t = Returned tok None"
  by (cases "(t, Claim i tok False)" rule: allowed.cases) auto

lemma inv_hist_refused:
  "inv_hist r tr \<Longrightarrow> Claim i tok False \<in> set tr \<Longrightarrow>
   i < length (tasks r) \<and> tasks r ! i = Returned tok None"
  unfolding inv_hist_def
proof -
  assume a: "\<forall>ev\<in>set tr. actor ev < length (tasks r) \<and> allowed (tasks r ! actor ev) ev"
    and b: "Claim i tok False \<in> set tr"
  from a b have "actor (Claim i tok False :: 'a event) < length (tasks r)"
    and "allowed (tasks r ! actor (Claim i tok False :: 'a event)) (Claim i tok False :: 'a event)"
    by blast+
  then show ?thesis by (auto dest: allowed_refused)
qed

lemma inv_hist_AtEntry:
  "inv_hist r tr \<Longrightarrow> i < length (tasks r) \<Longrightarrow> tasks r ! i = AtEntry tok start \<Longrightarrow>
   history i tr = []"
  by (rule history_silent) (auto simp: inv_hist_def)

lemma inv_fail_step:
  assumes "inv_fail r tr" and "inv_hist r tr" and "step env r ch = (r', evs)"
  shows "inv_fail r' (tr @ evs)"
proof -
  note ref = inv_hist_refused [OF assms(2)]
  note silent = inv_hist_AtEntry [OF assms(2)]
  from assms(3,1) show ?thesis
    by (cases rule: step_cases) (auto simp: inv_fail_def silent dest!: ref)
qed

lemma inv_spawned_step:
  assumes "inv_spawned r tr" and "inv_go r" and "step env r ch = (r', evs)"
  shows "inv_spawned r' (tr @ evs)"
  using assms(3,1,2)
  by (cases rule: step_cases)
     (auto simp: inv_spawned_def inv_go_def canReadChild_iff split: event.splits if_splits)

lemma inv_known_step:
  assumes "inv_known r" and "step env r ch = (r', evs)"
  shows "inv_known r'"
  using assms(2,1)
  by (cases rule: step_cases) (auto simp: inv_known_def)

lemma invariant_step:
  assumes "invariant env r tr" and "step env r ch = (r', evs)"
  shows "invariant env r' (tr @ evs)"
  using assms unfolding invariant_def
  by (auto intro: inv_hist_step inv_own_step inv_claimed_step inv_once_step inv_go_step
      inv_deliv_step inv_elig_step inv_wg_step inv_len_step inv_fail_step inv_spawned_step
      dest: step_frame(6))

section \<open>Every state of a run satisfies the invariants\<close>

lemma tasks_Read_enter:
  "group_ptr r0 = None \<Longrightarrow> tasks (fst (Read_enter r0)) = [RootClosure]"
  by (simp add: Read_enter_def tasks_def Go_def WithContext_def)

lemma invariant_init:
  assumes "group_ptr r0 = None"
  shows "invariant env (fst (Read_enter r0)) []"
  using assms
  by (auto simp: invariant_def tasks_Read_enter inv_hist_def inv_own_def inv_claimed_def
      inv_once_def claims_def inv_go_def inv_deliv_def inv_elig_def eligible_def spawned_def
      inv_wg_def inv_len_def spawns_def inv_fail_def inv_spawned_def isReturned_def)
     (simp_all add: Read_enter_def outstanding_def Go_def WithContext_def)

lemma run_invariant':
  assumes "invariant env r tr" and "run env (r, tr) sched = (r', tr')"
  shows "invariant env r' tr'"
  by (rule run_invariant [where P = "invariant env", OF assms(1) _ assms(2)])
     (rule invariant_step)

lemma Read_started:
  assumes "group_ptr r0 = None" and "Read env r0 sched = ((r, tr), res)"
  shows "run env (fst (Read_enter r0), []) sched = (r, tr)"
    and "res = (case group_ptr r of None \<Rightarrow> None | Some g \<Rightarrow> Wait g)"
  using assms by (auto simp: Read_def Read_enter_def Let_def)

lemma Read_refused:
  assumes "group_ptr r0 \<noteq> None" and "Read env r0 sched = ((r, tr), res)"
  shows "r = r0" and "tr = []" and "res = Some (Some (ErrorString ''reader has already been read''))"
  using assms by (auto simp: Read_def Read_enter_def Let_def)

lemma reachable:
  assumes "group_ptr r0 = None" and "Read env r0 sched = ((r, tr), res)"
  shows "invariant env r tr"
  using invariant_init [OF assms(1)] Read_started(1) [OF assms]
  by (rule run_invariant')

text \<open>The equations that evaluate the program on a concrete input.\<close>

lemmas demo_split_defs = demo_env_def demo_reader_def demo_A_def demo_B_def demo_C_def
  demo_first_def demo_second_def demo_choice_def demo_split_schedule_def

lemmas demo_defs = demo_env_def demo_reader_def demo_A_def demo_B_def demo_records_def
  demo_choice_def demo_schedule_def

lemmas program_defs = Read_def Read_enter_def step_def WithContext_def Go_def Done_def Wait_def
  settle_def isReturned_def rootClosure_def IsZero_def startRead_entry_def markStateReading_def
  statement_def startRead_Do_def callback_def decodeRow_def startRead_finish_def
  markStateFinished_def children_def canReadChild_def index_def startRead_Go_def
  tasks_def outstanding_def

section \<open>Consequences for the states of a run\<close>

lemma Read_group:
  assumes "Read env r0 sched = ((r, tr), res)"
  shows "group_ptr r0 \<noteq> None \<longrightarrow> r = r0 \<and> tr = []"
    and "group_ptr r0 = None \<longrightarrow> invariant env r tr"
  using assms Read_refused [of r0 env sched r tr res] reachable [of r0 env sched r tr res]
  by auto

lemma inv_root_step:
  assumes "inv_root r" and "step env r ch = (r', evs)"
  shows "inv_root r'"
  using assms(2,1)
  by (cases rule: step_cases)
     (auto simp: inv_root_def nth_list_update nth_append rootClosure_def Let_def)

lemma reachable_root:
  assumes "group_ptr r0 = None" and "Read env r0 sched = ((r, tr), res)"
  shows "inv_root r"
proof -
  have "inv_root (fst (Read_enter r0))"
    using assms(1) by (simp add: inv_root_def tasks_Read_enter)
  then show ?thesis
    by (rule run_invariant [where P = "\<lambda>r tr. inv_root r", OF _ _ Read_started(1) [OF assms]])
       (rule inv_root_step)
qed

lemma reachable_frame:
  assumes "group_ptr r0 = None" and "Read env r0 sched = ((r, tr), res)"
  shows "startTimestamp r = startTimestamp r0 \<and> dialect r = dialect r0"
proof -
  have "startTimestamp (fst (Read_enter r0)) = startTimestamp r0 \<and>
        dialect (fst (Read_enter r0)) = dialect r0"
    using assms(1) by (simp add: Read_enter_def)
  then show ?thesis
    by (rule run_invariant [where P = "\<lambda>r tr. startTimestamp r = startTimestamp r0 \<and>
          dialect r = dialect r0", OF _ _ Read_started(1) [OF assms]])
       (simp add: step_frame(1,2))
qed

lemma inv_hist_refused_history:
  assumes "invariant env r tr" and "Claim i tok False \<in> set tr"
  shows "i < length (tasks r) \<and> tasks r ! i = Returned tok None \<and>
         history i tr = [Claim i tok False, Exit i None]"
  using assms inv_hist_refused [of r tr i tok]
  by (auto simp: invariant_def inv_fail_def)

lemma produced_history: "produced i (history i tr) = produced i tr"
  by (induction tr) (auto split: event.splits)

lemma delivered_history: "delivered i (history i tr) = delivered i tr"
  by (induction tr) (auto split: event.splits)

lemma Read_trace:
  assumes "Read env r0 sched = ((r, tr), res)" and "ev \<in> set tr"
  shows "invariant env r tr" and "group_ptr r0 = None"
  using assms Read_group [OF assms(1)] by auto

lemma states_persist_step:
  assumes "step env r ch = (r', evs)" and "states r tok \<noteq> None"
  shows "states r' tok \<noteq> None"
  using assms by (cases rule: step_cases) auto

lemma states_persist_run:
  assumes "run env (r, tr) sched = (r', tr')" and "states r tok \<noteq> None"
  shows "states r' tok \<noteq> None"
  using assms(2)
  by (rule run_invariant [where P = "\<lambda>r tr. states r tok \<noteq> None", OF _ _ assms(1)])
     (rule states_persist_step)

lemma claims_Nil [simp]: "claims tok [] = []"
  by (simp add: claims_def)

lemma claims_Cons [simp]:
  "claims tok (ev # tr) =
     (case ev of Claim i t b \<Rightarrow> if t = tok \<and> b then [i] else [] | _ \<Rightarrow> []) @ claims tok tr"
  by (simp add: claims_def)

lemma allowed_Exit_Some: "allowed t (Exit i (Some e)) \<Longrightarrow> \<exists>tok. t = Returned tok (Some e)"
  by (cases "(t, Exit i (Some e))" rule: allowed.cases) auto

lemma allowed_Exit: "allowed t (Exit i x) \<Longrightarrow> isReturned t"
  by (cases "(t, Exit i x)" rule: allowed.cases) auto

lemma inv_hist_event:
  assumes "inv_hist r tr" and "ev \<in> set tr"
  shows "actor ev < length (tasks r)" and "allowed (tasks r ! actor ev) ev"
  using assms by (auto simp: inv_hist_def)

lemma inv_hist_Exit_Some:
  assumes "inv_hist r tr" and "Exit i (Some e) \<in> set tr"
  shows "i < length (tasks r)" and "\<exists>tok. tasks r ! i = Returned tok (Some e)"
  using inv_hist_event [OF assms] by (auto dest: allowed_Exit_Some)

lemma inv_hist_Exit:
  assumes "inv_hist r tr" and "Exit i x \<in> set tr"
  shows "i < length (tasks r)" and "isReturned (tasks r ! i)"
  using inv_hist_event [OF assms] by (auto dest: allowed_Exit)

lemma step_actor:
  assumes "step env r ch = (r', evs)"
  shows "\<forall>ev\<in>set evs. actor ev = goroutine ch"
  using assms by (cases rule: step_cases) auto

lemma quiet_step:
  assumes "i < length (tasks r) \<and> tasks r ! i = Returned tok x \<and> history i tr = h"
    and "step env r ch = (r', evs)"
  shows "i < length (tasks r') \<and> tasks r' ! i = Returned tok x \<and> history i (tr @ evs) = h"
  using assms(2,1)
  by (cases rule: step_cases) (auto simp: nth_list_update nth_append)

lemma quiet_run:
  assumes "run env (r, tr) sched = (r', tr')"
    and "i < length (tasks r)" and "tasks r ! i = Returned tok x"
  shows "history i tr' = history i tr"
proof -
  have "i < length (tasks r) \<and> tasks r ! i = Returned tok x \<and> history i tr = history i tr"
    using assms(2,3) by simp
  then have "i < length (tasks r') \<and> tasks r' ! i = Returned tok x \<and>
      history i tr' = history i tr"
    by (rule run_invariant [where P = "\<lambda>r' tr'. i < length (tasks r') \<and>
          tasks r' ! i = Returned tok x \<and> history i tr' = history i tr", OF _ _ assms(1)])
       (rule quiet_step)
  then show ?thesis by simp
qed

lemma spawned_history: "spawned i (history i tr) = spawned i tr"
  by (induction tr) (auto simp: spawned_def split: event.splits)

lemma checked_Nil [simp]: "checked i [] = []"
  by (simp add: checked_def)

lemma checked_Cons [simp]:
  "checked i (ev # tr) =
     (case ev of Checked j c b \<Rightarrow> if j = i then [c] else [] | _ \<Rightarrow> []) @ checked i tr"
  by (simp add: checked_def)

lemma checked_append [simp]: "checked i (tr @ evs) = checked i tr @ checked i evs"
  by (simp add: checked_def)

lemma checked_silent: "\<forall>ev\<in>set tr. actor ev \<noteq> i \<Longrightarrow> checked i tr = []"
  by (induction tr) (auto split: event.splits)

lemma children_Nil [simp]: "children [] = []"
  by (simp add: children_def)

lemma inv_hist_quiet:
  assumes "inv_hist r tr" and "i < length (tasks r)"
    and "\<forall>ev\<in>set tr. \<not> allowed (tasks r ! i) ev"
  shows "\<forall>ev\<in>set tr. actor ev \<noteq> i"
  using assms by (auto simp: inv_hist_def)

lemma verdicts_Nil [simp]: "verdicts i [] = []"
  by (simp add: verdicts_def)

lemma verdicts_Cons [simp]:
  "verdicts i (ev # tr) =
     (case ev of Checked j c b \<Rightarrow> if j = i then [b] else [] | _ \<Rightarrow> []) @ verdicts i tr"
  by (simp add: verdicts_def)

lemma verdicts_append [simp]: "verdicts i (tr @ evs) = verdicts i tr @ verdicts i evs"
  by (simp add: verdicts_def)

lemma verdicts_silent: "\<forall>ev\<in>set tr. actor ev \<noteq> i \<Longrightarrow> verdicts i tr = []"
  by (induction tr) (auto split: event.splits)

lemma spawnedAt_Nil [simp]: "spawnedAt i [] = []"
  by (simp add: spawnedAt_def)

lemma spawnedAt_Cons [simp]:
  "spawnedAt i (ev # tr) =
     (case ev of Spawned j c ts \<Rightarrow> if j = i then [(ts, c)] else [] | _ \<Rightarrow> []) @ spawnedAt i tr"
  by (simp add: spawnedAt_def)

lemma spawnedAt_append [simp]: "spawnedAt i (tr @ evs) = spawnedAt i tr @ spawnedAt i evs"
  by (simp add: spawnedAt_def)

lemma spawnedAt_silent: "\<forall>ev\<in>set tr. actor ev \<noteq> i \<Longrightarrow> spawnedAt i tr = []"
  by (induction tr) (auto split: event.splits)

lemma requests_Nil [simp]: "requests [] = []"
  by (simp add: requests_def)

lemma requests_Cons [simp]:
  "requests (ev # tr) = (case ev of Spawned j c ts \<Rightarrow> [(c, ts)] | _ \<Rightarrow> []) @ requests tr"
  by (simp add: requests_def)

lemma requests_append [simp]: "requests (tr @ evs) = requests tr @ requests evs"
  by (simp add: requests_def)

lemma discovered_silent: "\<forall>ev\<in>set tr. actor ev \<noteq> i \<Longrightarrow> discovered i tr = []"
  by (simp add: discovered_def delivered_silent)

lemma children_append: "children (xs @ ys) = children xs @ children ys"
  by (simp add: children_def)

lemma appendChildPartitionsRecords_eq:
  "appendChildPartitionsRecords recs crs = recs @ concat (map ChildPartitionsRecords crs)"
  by (induction crs arbitrary: recs) auto

lemma children_concat:
  "children (concat xss) = concat (map children xss)"
  by (induction xss) (simp_all add: children_append)

lemma discovered_Nil [simp]: "discovered i [] = []"
  by (simp add: discovered_def)

lemma discovered_append [simp]:
  "discovered i (tr @ evs) = discovered i tr @ discovered i evs"
  by (simp add: discovered_def)

lemma discovered_Cons [simp]:
  "discovered i (ev # tr) =
     (case ev of
        Delivered j readResult e \<Rightarrow>
          if j = i then children (concat (map ChildPartitionsRecords (ChangeRecords readResult)))
          else []
      | _ \<Rightarrow> []) @ discovered i tr"
  by (cases ev) (simp_all add: discovered_def children_concat, simp add: children_def comp_def)

lemma zip_verdict:
  assumes "drop (length V) D = x # rest"
  shows "zip D (V @ [b]) = zip D V @ [(x, b)] \<and> drop (Suc (length V)) D = rest \<and>
    Suc (length V) \<le> length D"
proof -
  let ?A = "take (length V) D"
  from assms have lt: "length V < length D"
    by (metis drop_all list.distinct(1) not_le)
  then have len: "length ?A = length V" by simp
  have D: "D = ?A @ x # rest" using assms by (metis append_take_drop_id)
  have "zip (?A @ x # rest) (V @ [b]) = zip ?A V @ zip (x # rest) [b]"
    using len by (rule zip_append)
  moreover have "zip (?A @ x # rest) V = zip ?A V"
    using len by (simp add: zip_append1)
  ultimately have "zip D (V @ [b]) = zip D V @ [(x, b)]" using D by simp
  moreover from assms have "drop (Suc (length V)) D = rest"
    by (metis drop_Suc drop_drop list.sel(3) plus_1_eq_Suc tl_drop)
  ultimately show ?thesis using lt by simp
qed

lemma zip_done:
  assumes "drop (length V) D = []" and "length V \<le> length D"
  shows "length V = length D" and "map (snd \<circ> fst) (zip D V) = map snd D"
proof -
  from assms show l: "length V = length D" by simp
  then have "map fst (zip D V) = D" by simp
  then have "map snd (map fst (zip D V)) = map snd D" by simp
  then show "map (snd \<circ> fst) (zip D V) = map snd D" by simp
qed

lemma length_checked: "length (checked i tr) = length (verdicts i tr)"
  by (induction tr) (auto split: event.splits)

lemma checked_no_verdicts: "verdicts i tr = [] \<Longrightarrow> checked i tr = []"
  using length_checked [of i tr] by simp

lemma inv_loop_ChildLoop:
  assumes "inv_loop r tr" and "i < length (tasks r)" and "tasks r ! i = ChildLoop tok todo"
  shows "drop (length (verdicts i tr)) (discovered i tr) = todo"
    and "length (verdicts i tr) \<le> length (discovered i tr)"
    and "checked i tr = map (snd \<circ> fst) (zip (discovered i tr) (verdicts i tr))"
    and "spawnedAt i tr = map fst (filter snd (zip (discovered i tr) (verdicts i tr)))"
  using assms unfolding inv_loop_def by (drule_tac x = i in spec, simp)+

lemma inv_loop_step:
  assumes "inv_loop r tr" and "inv_hist r tr" and "step env r ch = (r', evs)"
  shows "inv_loop r' (tr @ evs)"
proof -
  have silent: "verdicts i tr = []" "spawnedAt i tr = []"
    "discovered i tr = []" "checked i tr = []"
    if "i < length (tasks r)" "\<forall>ev\<in>set tr. \<not> allowed (tasks r ! i) ev" for i
    using inv_hist_quiet [OF assms(2) that]
    by (simp_all add: verdicts_silent spawnedAt_silent discovered_silent checked_silent)
  from assms(3,1) show ?thesis
  proof (cases rule: step_cases)
    case (eligible tok ts c todo)
    note g = inv_loop_ChildLoop [OF assms(1) eligible(1,2)]
    note z = zip_verdict [OF g(1), of True]
    from eligible assms(1) show ?thesis
      by (auto simp: inv_loop_def nth_list_update z g(3,4) split: task.splits option.splits)
  next
    case (waiting tok ts c todo)
    note g = inv_loop_ChildLoop [OF assms(1) waiting(1,2)]
    note z = zip_verdict [OF g(1), of False]
    from waiting assms(1) show ?thesis
      by (auto simp: inv_loop_def nth_list_update z g(3,4) split: task.splits option.splits)
  next
    case (exit tok)
    note g = inv_loop_ChildLoop [OF assms(1) exit(1,2)]
    note z = zip_done [OF g(1,2)]
    from exit assms(1) show ?thesis
      by (auto simp: inv_loop_def nth_list_update z g(3,4) split: task.splits option.splits)
  qed (auto simp: inv_loop_def nth_list_update nth_append rootClosure_def Let_def
          less_Suc_eq silent appendChildPartitionsRecords_eq children_append
          checked_no_verdicts
          split: task.splits option.splits)
qed

lemma inv_reg_alt:
  "inv_reg r tr =
     (length (tasks r) = Suc (length (requests tr)) \<and>
      (\<forall>j<length (tasks r). j \<noteq> 0 \<longrightarrow>
         registered (tasks r ! j) (Token (fst (requests tr ! (j - 1))))
           (snd (requests tr ! (j - 1)))))"
  unfolding inv_reg_def
proof (intro conj_cong refl iffI allI impI)
  fix j
  assume len: "length (tasks r) = Suc (length (requests tr))"
    and *: "\<forall>k<length (requests tr).
      registered (tasks r ! Suc k) (Token (fst (requests tr ! k))) (snd (requests tr ! k))"
    and j: "j < length (tasks r)" "j \<noteq> 0"
  then obtain k where "j = Suc k" "k < length (requests tr)" by (cases j) auto
  with * show "registered (tasks r ! j) (Token (fst (requests tr ! (j - 1))))
           (snd (requests tr ! (j - 1)))" by simp
next
  fix k
  assume len: "length (tasks r) = Suc (length (requests tr))"
    and *: "\<forall>j<length (tasks r). j \<noteq> 0 \<longrightarrow>
         registered (tasks r ! j) (Token (fst (requests tr ! (j - 1))))
           (snd (requests tr ! (j - 1)))"
    and k: "k < length (requests tr)"
  then have "Suc k < length (tasks r)" by simp
  with * have "registered (tasks r ! Suc k) (Token (fst (requests tr ! (Suc k - 1))))
           (snd (requests tr ! (Suc k - 1)))" by blast
  then show "registered (tasks r ! Suc k) (Token (fst (requests tr ! k))) (snd (requests tr ! k))"
    by simp
qed

lemma inv_reg_step:
  assumes "inv_reg r tr" and "step env r ch = (r', evs)"
  shows "inv_reg r' (tr @ evs)"
  using assms(2,1) unfolding inv_reg_alt
  by (cases rule: step_cases)
     (auto simp: nth_list_update nth_append less_Suc_eq rootClosure_def Let_def)

lemma inv_loop_init: "tasks r = [RootClosure] \<Longrightarrow> inv_loop r []"
  by (simp add: inv_loop_def)

lemma inv_reg_init: "tasks r = [RootClosure] \<Longrightarrow> inv_reg r []"
  by (simp add: inv_reg_def)

lemma invariant_loop_step:
  assumes "invariant env r tr \<and> inv_loop r tr \<and> inv_reg r tr"
    and "step env r ch = (r', evs)"
  shows "invariant env r' (tr @ evs) \<and> inv_loop r' (tr @ evs) \<and> inv_reg r' (tr @ evs)"
  using assms invariant_step [of env r tr ch r' evs] inv_loop_step [of r tr env ch r' evs]
    inv_reg_step [of r tr env ch r' evs]
  by (simp add: invariant_def)

lemma reachable_loop:
  assumes "group_ptr r0 = None" and "Read env r0 sched = ((r, tr), res)"
  shows "inv_loop r tr" and "inv_reg r tr"
proof -
  have "invariant env (fst (Read_enter r0)) [] \<and> inv_loop (fst (Read_enter r0)) [] \<and>
      inv_reg (fst (Read_enter r0)) []"
    using assms(1) invariant_init [of r0 env]
    by (simp add: inv_loop_init inv_reg_init tasks_Read_enter)
  then have "invariant env r tr \<and> inv_loop r tr \<and> inv_reg r tr"
    by (rule run_invariant [where P = "\<lambda>r tr. invariant env r tr \<and> inv_loop r tr \<and> inv_reg r tr",
          OF _ _ Read_started(1) [OF assms]])
       (rule invariant_loop_step)
  then show "inv_loop r tr" and "inv_reg r tr" by simp_all
qed

lemma spawnedAt_requests:
  "(ts, c) \<in> set (spawnedAt i tr) \<Longrightarrow> (c, ts) \<in> set (requests tr)"
  by (induction tr) (auto split: event.splits if_splits)

lemma forward_step:
  assumes "inv_own r" and "step env r ch = (r', evs)"
  shows "states r' tok = states r tok \<or>
         (states r tok = None \<and> states r' tok = Some partitionStateReading) \<or>
         (states r tok = Some partitionStateReading \<and>
          states r' tok = Some partitionStateFinished)"
  using assms(2,1)
  by (cases rule: step_cases) (auto simp: inv_own_def)

lemma reachable_known:
  assumes "group_ptr r0 = None" and "states r0 = Map.empty"
    and "Read env r0 sched = ((r, tr), res)"
  shows "inv_known r"
proof -
  have "inv_known (fst (Read_enter r0))"
    using assms(1,2) by (simp add: inv_known_def Read_enter_def)
  then show ?thesis
    by (rule run_invariant [where P = "\<lambda>r tr. inv_known r",
          OF _ _ Read_started(1) [OF assms(1,3)]])
       (rule inv_known_step)
qed

lemma NewReader_fresh:
  assumes "NewReaderWithConfig client detected sid config = Inr r0"
  shows "group_ptr r0 = None" and "states r0 = Map.empty"
  using assms
  by (auto simp: NewReaderWithConfig_def split: option.splits sum.splits)

lemma Read_total: "\<exists>r tr res. Read env r0 sched = ((r, tr), res)"
  by (metis prod.collapse)

lemma Read_snoc:
  assumes "group_ptr r0 = None" and "Read env r0 sched = ((r, tr), res)"
  shows "fst (Read env r0 (sched @ [ch])) = (fst (step env r ch), tr @ snd (step env r ch))"
  using assms
  by (auto simp: Read_def Read_enter_def Let_def run_append split: prod.splits)

lemma stateHistory_snoc:
  "stateHistory env r0 (sched @ [ch]) tok =
     stateHistory env r0 sched tok @
     [index (states (fst (fst (Read env r0 (sched @ [ch]))))) tok]"
  by (simp add: stateHistory_def)

lemma stateHistory_last:
  "stateHistory env r0 sched tok =
     map (\<lambda>k. index (states (fst (fst (Read env r0 (take k sched))))) tok) [0..<length sched] @
     [index (states (fst (fst (Read env r0 sched)))) tok]"
  by (simp add: stateHistory_def)

lemma stateHistory_shape:
  assumes "NewReaderWithConfig client detected sid config = Inr r0"
  shows "remdups_adj (stateHistory env r0 sched tok) =
     take (Suc (rank (index (states (fst (fst (Read env r0 sched)))) tok)))
       [partitionStateUnknown, partitionStateReading, partitionStateFinished]"
proof (induction sched rule: rev_induct)
  case Nil
  from NewReader_fresh [OF assms] show ?case
    by (simp add: stateHistory_def Read_def Read_enter_def index_def)
next
  case (snoc ch sched)
  note fresh = NewReader_fresh [OF assms]
  obtain r tr res where run: "Read env r0 sched = ((r, tr), res)"
    using Read_total by blast
  obtain r' evs where s: "step env r ch = (r', evs)" by (cases "step env r ch")
  from Read_snoc [OF fresh(1) run, of ch] s
  have r': "fst (fst (Read env r0 (sched @ [ch]))) = r'" by simp
  from reachable [OF fresh(1) run] have own: "inv_own r" by (simp add: invariant_def)
  from reachable_known [OF fresh run] have known: "inv_known r" .
  let ?old = "index (states r) tok" and ?new = "index (states r') tok"
  from forward_step [OF own s, of tok] known
  have move: "?new = ?old \<or> (?old = partitionStateUnknown \<and> ?new = partitionStateReading) \<or>
      (?old = partitionStateReading \<and> ?new = partitionStateFinished)"
    by (auto simp: index_def inv_known_def split: option.splits)
  let ?pre = "map (\<lambda>k. index (states (fst (fst (Read env r0 (take k sched))))) tok)
      [0..<length sched]"
  have h: "stateHistory env r0 sched tok = ?pre @ [?old]"
    using stateHistory_last [of env r0 sched tok] run by simp
  have "remdups_adj (stateHistory env r0 (sched @ [ch]) tok) =
      remdups_adj (?pre @ [?old, ?new])"
    by (simp add: stateHistory_snoc h r')
  also have "\<dots> = remdups_adj (?pre @ [?old]) @ (if ?old = ?new then [] else [?new])"
    by (rule remdups_adj_append_two)
  also have "remdups_adj (?pre @ [?old]) =
      take (Suc (rank ?old))
        [partitionStateUnknown, partitionStateReading, partitionStateFinished]"
    using snoc.IH h run by simp
  finally show ?case
    using move by (auto simp: r')
qed

lemma allowed_Finished:
  "allowed t (Finished i tok) \<Longrightarrow>
   (\<exists>todo. t = ChildLoop tok todo) \<or> (\<exists>c todo. t = CallGo tok c todo) \<or> t = Returned tok None"
  by (cases "(t, Finished i tok)" rule: allowed.cases) auto

lemma after_Finished_step:
  assumes "inv_hist r tr" and "Finished i tok \<in> set tr" and "step env r ch = (r', evs)"
  shows "produced i evs = [] \<and> delivered i evs = []"
proof -
  from inv_hist_event [OF assms(1,2)]
  have lt: "i < length (tasks r)" and al: "allowed (tasks r ! i) (Finished i tok :: 'a event)"
    by simp_all
  from assms(3) allowed_Finished [OF al] show ?thesis
    by (cases rule: step_cases) auto
qed

section \<open>The claims\<close>

text \<open>
  C1. \<^verbatim>\<open>markStateReading\<close> returns true if and only if the token has no entry in
  \<^verbatim>\<open>states\<close>; it then inserts the token as \<^verbatim>\<open>partitionStateReading\<close>, and otherwise
  leaves the reader as it is. After a call for a token, whatever steps the goroutines take
  next, a call for the same token returns false and changes nothing. In a run of
  \<^verbatim>\<open>Read\<close>, under every schedule, the call of a goroutine returns true exactly when the
  token has no entry at that moment, no earlier call for the token returned true then, and
  so at most one call for a token ever returns true.
\<close>

theorem markStateReading_claims_once:
  "(fst (markStateReading r1 tok) \<longleftrightarrow> states r1 tok = None) \<and>
   (states r1 tok = None \<longrightarrow>
      snd (markStateReading r1 tok) =
        r1\<lparr>states := (states r1)(tok \<mapsto> partitionStateReading)\<rparr>) \<and>
   (states r1 tok \<noteq> None \<longrightarrow> snd (markStateReading r1 tok) = r1) \<and>
   (run env (snd (markStateReading r1 tok), tr1) sched1 = (r2, tr2) \<longrightarrow>
      markStateReading r2 tok = (False, r2)) \<and>
   (Read env r0 sched = ((r, tr), res) \<longrightarrow> length (claims tok tr) \<le> 1) \<and>
   (group_ptr r0 = None \<and> Read env r0 sched = ((r, tr), res) \<and> step env r ch = (r', evs) \<and>
    Claim i tok b \<in> set evs \<longrightarrow>
      (b \<longleftrightarrow> states r tok = None) \<and> (b \<longrightarrow> claims tok tr = []))"
proof (intro conjI impI)
  show "fst (markStateReading r1 tok) \<longleftrightarrow> states r1 tok = None"
    by (simp add: markStateReading_def split: option.splits)
  show "snd (markStateReading r1 tok) =
      r1\<lparr>states := (states r1)(tok \<mapsto> partitionStateReading)\<rparr>" if "states r1 tok = None"
    using that by (simp add: markStateReading_def)
  show "snd (markStateReading r1 tok) = r1" if "states r1 tok \<noteq> None"
    using that by (auto simp: markStateReading_def)
  show "markStateReading r2 tok = (False, r2)"
    if "run env (snd (markStateReading r1 tok), tr1) sched1 = (r2, tr2)"
  proof -
    have "states (snd (markStateReading r1 tok)) tok \<noteq> None"
      by (simp add: markStateReading_def split: option.splits)
    from states_persist_run [OF that this] show ?thesis
      by (auto simp: markStateReading_def)
  qed
  show "length (claims tok tr) \<le> 1" if "Read env r0 sched = ((r, tr), res)"
    using Read_group [OF that]
    by (cases "group_ptr r0") (auto simp: invariant_def inv_once_def)
next
  assume a: "group_ptr r0 = None \<and> Read env r0 sched = ((r, tr), res) \<and>
    step env r ch = (r', evs) \<and> Claim i tok b \<in> set evs"
  then have "invariant env r tr" by (blast intro: reachable)
  then have once: "states r tok = None \<longrightarrow> claims tok tr = []"
    by (simp add: invariant_def inv_once_def)
  from a have s: "step env r ch = (r', evs)" and c: "Claim i tok b \<in> set evs" by blast+
  from s c have "b \<longleftrightarrow> states r tok = None"
    by (cases rule: step_cases) auto
  then show "b \<longleftrightarrow> states r tok = None" .
  assume b
  with \<open>b \<longleftrightarrow> states r tok = None\<close> once show "claims tok tr = []" by blast
qed

theorem markStateReading_claims_once_witness:
  "fst (markStateReading (fst (fst (Read demo_env demo_reader (take 11 demo_schedule)))) ''A'') \<and>
   markStateReading
     (fst (run demo_env
        (snd (markStateReading (fst (fst (Read demo_env demo_reader (take 11 demo_schedule))))
           ''A''), [])
        (drop 11 demo_schedule))) ''A'' =
     (False,
      fst (run demo_env
        (snd (markStateReading (fst (fst (Read demo_env demo_reader (take 11 demo_schedule))))
           ''A''), [])
        (drop 11 demo_schedule))) \<and>
   claims ''A'' (snd (fst (Read demo_env demo_reader demo_schedule))) = [1] \<and>
   length (claims ''A'' (snd (fst (Read demo_env demo_reader demo_schedule)))) \<le> 1 \<and>
   snd (step demo_env (fst (fst (Read demo_env demo_reader (take 11 demo_schedule))))
          (demo_choice 1 IteratorDone)) = [Claim 1 ''A'' True] \<and>
   claims ''A'' (snd (fst (Read demo_env demo_reader (take 11 demo_schedule)))) = []"
proof -
  let ?s = "Read demo_env demo_reader demo_schedule"
  let ?s' = "Read demo_env demo_reader (take 11 demo_schedule)"
  let ?st = "step demo_env (fst (fst ?s')) (demo_choice 1 IteratorDone)"
  let ?run = "run demo_env (snd (markStateReading (fst (fst ?s')) ''A''), [])
      (drop 11 demo_schedule)"
  note t = markStateReading_claims_once [of "fst (fst ?s')" "''A''" demo_env "[]"
      "drop 11 demo_schedule" "fst ?run" "snd ?run" demo_reader demo_schedule
      "fst (fst ?s)" "snd (fst ?s)" "snd ?s"]
  note t' = markStateReading_claims_once [of "fst (fst ?s')" "''A''" demo_env "[]"
      "drop 11 demo_schedule" "fst ?run" "snd ?run" demo_reader "take 11 demo_schedule"
      "fst (fst ?s')" "snd (fst ?s')" "snd ?s'" "demo_choice 1 IteratorDone"
      "fst ?st" "snd ?st" 1 True]
  have free: "states (fst (fst ?s')) ''A'' = None"
    by (simp add: demo_defs program_defs)
  with t have 1: "fst (markStateReading (fst (fst ?s')) ''A'')" by blast
  have ev: "snd ?st = [Claim 1 ''A'' True]"
    by (simp add: demo_defs program_defs)
  have "?run = (fst ?run, snd ?run)" by simp
  with t have 2: "markStateReading (fst ?run) ''A'' = (False, fst ?run)" by blast
  have "?s = ((fst (fst ?s), snd (fst ?s)), snd ?s)" by simp
  with t have 3: "length (claims ''A'' (snd (fst ?s))) \<le> 1" by blast
  have 4: "claims ''A'' (snd (fst ?s)) = [1]"
    by (simp add: demo_defs program_defs)
  have g: "group_ptr demo_reader = None" by (simp add: demo_reader_def)
  have m: "Claim 1 ''A'' True \<in> set (snd ?st)" unfolding ev by simp
  have "?s' = ((fst (fst ?s'), snd (fst ?s')), snd ?s') \<and> ?st = (fst ?st, snd ?st)" by simp
  with g m t' have 5: "claims ''A'' (snd (fst ?s')) = []" by blast
  from 1 2 3 4 5 ev show ?thesis by blast
qed

text \<open>
  C2. \<^verbatim>\<open>canReadChild\<close> returns true if and only if every token of the child's
  \<^verbatim>\<open>ParentPartitionTokens\<close> maps to \<^verbatim>\<open>partitionStateFinished\<close> in \<^verbatim>\<open>states\<close>; a
  parent without an entry makes it false. In a run of \<^verbatim>\<open>Read\<close>, under every schedule,
  at the moment a goroutine passes a child to \<^verbatim>\<open>r.group.Go\<close> all the parents in the
  child's list are finished, and they are still finished in every later state.
\<close>

theorem canReadChild_all_parents_finished:
  "(canReadChild r1 c \<longleftrightarrow>
      (\<forall>p\<in>set (ParentPartitionTokens c). states r1 p = Some partitionStateFinished)) \<and>
   (p \<in> set (ParentPartitionTokens c) \<and> states r1 p = None \<longrightarrow> \<not> canReadChild r1 c) \<and>
   (group_ptr r0 = None \<and> Read env r0 sched = ((r, tr), res) \<and> step env r ch = (r', evs) \<and>
    Spawned i c ts \<in> set evs \<longrightarrow>
      (\<forall>p\<in>set (ParentPartitionTokens c). states r p = Some partitionStateFinished)) \<and>
   (Read env r0 sched = ((r, tr), res) \<and> Spawned i c ts \<in> set tr \<longrightarrow>
      (\<forall>p\<in>set (ParentPartitionTokens c). states r p = Some partitionStateFinished))"
proof (intro conjI impI)
  show "canReadChild r1 c \<longleftrightarrow>
      (\<forall>p\<in>set (ParentPartitionTokens c). states r1 p = Some partitionStateFinished)"
    by (rule canReadChild_iff)
  show "\<not> canReadChild r1 c" if "p \<in> set (ParentPartitionTokens c) \<and> states r1 p = None"
    using that unfolding canReadChild_iff by force
next
  assume a: "group_ptr r0 = None \<and> Read env r0 sched = ((r, tr), res) \<and>
    step env r ch = (r', evs) \<and> Spawned i c ts \<in> set evs"
  then have "invariant env r tr" by (blast intro: reachable)
  then have go: "inv_go r" by (simp add: invariant_def)
  from a have s: "step env r ch = (r', evs)" and c: "Spawned i c ts \<in> set evs" by blast+
  from s c go have "canReadChild r c"
    by (cases rule: step_cases) (auto simp: inv_go_def)
  then show "\<forall>p\<in>set (ParentPartitionTokens c). states r p = Some partitionStateFinished"
    by (simp add: canReadChild_iff)
next
  assume a: "Read env r0 sched = ((r, tr), res) \<and> Spawned i c ts \<in> set tr"
  then have "invariant env r tr" by (blast intro: Read_trace)
  then have "inv_spawned r tr" by (simp add: invariant_def)
  with a have "canReadChild r c" by (auto simp: inv_spawned_def)
  then show "\<forall>p\<in>set (ParentPartitionTokens c). states r p = Some partitionStateFinished"
    by (simp add: canReadChild_iff)
qed

theorem canReadChild_all_parents_finished_witness:
  "canReadChild (fst (fst (Read demo_env demo_reader (take 6 demo_schedule)))) demo_A \<and>
   \<not> canReadChild (fst (fst (Read demo_env demo_reader (take 6 demo_schedule)))) demo_B \<and>
   \<not> canReadChild (fst (fst (Read demo_env demo_reader (take 2 demo_schedule)))) demo_A \<and>
   snd (step demo_env (fst (fst (Read demo_env demo_reader (take 6 demo_schedule))))
          (demo_choice 0 IteratorDone)) = [Spawned 0 demo_A 7] \<and>
   states (fst (fst (Read demo_env demo_reader (take 6 demo_schedule)))) [] =
     Some partitionStateFinished \<and>
   states (fst (fst (Read demo_env demo_reader demo_schedule))) [] =
     Some partitionStateFinished"
proof -
  let ?s = "Read demo_env demo_reader demo_schedule"
  let ?s' = "Read demo_env demo_reader (take 6 demo_schedule)"
  let ?s2 = "Read demo_env demo_reader (take 2 demo_schedule)"
  let ?st = "step demo_env (fst (fst ?s')) (demo_choice 0 IteratorDone)"
  note t = canReadChild_all_parents_finished [of "fst (fst ?s')" demo_A "[]" demo_reader demo_env
      "take 6 demo_schedule" "fst (fst ?s')" "snd (fst ?s')" "snd ?s'"
      "demo_choice 0 IteratorDone" "fst ?st" "snd ?st" 0 7]
  note tB = canReadChild_all_parents_finished [of "fst (fst ?s')" demo_B "''X''" demo_reader
      demo_env "take 6 demo_schedule" "fst (fst ?s')" "snd (fst ?s')" "snd ?s'"
      "demo_choice 0 IteratorDone" "fst ?st" "snd ?st" 0 7]
  note t2 = canReadChild_all_parents_finished [of "fst (fst ?s2)" demo_A "[]" demo_reader
      demo_env demo_schedule "fst (fst ?s)" "snd (fst ?s)" "snd ?s"
      "demo_choice 0 IteratorDone" "fst ?st" "snd ?st" 0 7]
  have ev: "snd ?st = [Spawned 0 demo_A 7]"
    by (simp add: demo_defs program_defs)
  have g: "group_ptr demo_reader = None" by (simp add: demo_reader_def)
  have m: "Spawned 0 demo_A 7 \<in> set (snd ?st)" unfolding ev by simp
  have "?s' = ((fst (fst ?s'), snd (fst ?s')), snd ?s') \<and> ?st = (fst ?st, snd ?st)" by simp
  with g m t have "\<forall>p\<in>set (ParentPartitionTokens demo_A).
      states (fst (fst ?s')) p = Some partitionStateFinished"
    by blast
  then have 1: "states (fst (fst ?s')) [] = Some partitionStateFinished"
    by (simp add: demo_A_def)
  with t have 2: "canReadChild (fst (fst ?s')) demo_A" by (simp add: demo_A_def)
  have "''X'' \<in> set (ParentPartitionTokens demo_B) \<and> states (fst (fst ?s')) ''X'' = None"
    by (simp add: demo_defs program_defs)
  with tB have 3: "\<not> canReadChild (fst (fst ?s')) demo_B" by blast
  have "[] \<in> set (ParentPartitionTokens demo_A) \<and> states (fst (fst ?s2)) [] \<noteq> Some partitionStateFinished"
    by (simp add: demo_defs program_defs)
  with t2 have 4: "\<not> canReadChild (fst (fst ?s2)) demo_A" by blast
  have "?s = ((fst (fst ?s), snd (fst ?s)), snd ?s) \<and> Spawned 0 demo_A 7 \<in> set (snd (fst ?s))"
    by (simp add: demo_defs program_defs)
  with t2 have "\<forall>p\<in>set (ParentPartitionTokens demo_A).
      states (fst (fst ?s)) p = Some partitionStateFinished"
    by blast
  then have 5: "states (fst (fst ?s)) [] = Some partitionStateFinished"
    by (simp add: demo_A_def)
  from 1 2 3 4 5 ev show ?thesis by blast
qed

text \<open>
  C3. When, for a goroutine inside \<^verbatim>\<open>Do\<close>, the row iterator fails, or the decoder
  fails on the row, or \<^verbatim>\<open>f\<close> returns an error, \<^verbatim>\<open>startRead\<close> returns that error in
  the same step: \<^verbatim>\<open>states\<close> is not touched, \<^verbatim>\<open>markStateFinished\<close> is not called and no
  goroutine is started. In a run of \<^verbatim>\<open>Read\<close>, under every schedule, a goroutine that
  has returned an error has never marked its partition finished and has never passed a
  child to \<^verbatim>\<open>r.group.Go\<close>, and its token is still \<^verbatim>\<open>partitionStateReading\<close>.
\<close>

theorem startRead_error_keeps_reading:
  "(goroutine ch = i \<and> i < length (tasks r1) \<and> tasks r1 ! i = InDo tok recs \<and>
    (iterator ch = NextError e \<or>
     (\<exists>row. iterator ch = Row row \<and>
        (decodeRow env r1 tok row = Inl e \<or>
         (\<exists>readResult. decodeRow env r1 tok row = Inr readResult \<and> f_returns ch = Some e)))) \<longrightarrow>
      last (snd (step env r1 ch)) = Exit i (Some e) \<and>
      states (fst (step env r1 ch)) = states r1 \<and>
      tasks (fst (step env r1 ch)) = (tasks r1)[i := Returned tok (Some e)] \<and>
      (\<forall>t. Finished i t \<notin> set (snd (step env r1 ch))) \<and>
      (\<forall>c ts. Spawned i c ts \<notin> set (snd (step env r1 ch)))) \<and>
   (Read env r0 sched = ((r, tr), res) \<and> Exit i (Some e) \<in> set tr \<longrightarrow>
      (\<forall>t. Finished i t \<notin> set tr) \<and>
      (\<forall>c ts. Spawned i c ts \<notin> set tr) \<and>
      tasks r ! i = Returned (token (tasks r ! i)) (Some e) \<and>
      states r (token (tasks r ! i)) = Some partitionStateReading)"
proof (intro conjI impI)
  assume a: "goroutine ch = i \<and> i < length (tasks r1) \<and> tasks r1 ! i = InDo tok recs \<and>
    (iterator ch = NextError e \<or>
     (\<exists>row. iterator ch = Row row \<and>
        (decodeRow env r1 tok row = Inl e \<or>
         (\<exists>readResult. decodeRow env r1 tok row = Inr readResult \<and> f_returns ch = Some e))))"
  obtain r' evs where s: "step env r1 ch = (r', evs)" by (cases "step env r1 ch")
  from s a have "last evs = Exit i (Some e) \<and> states r' = states r1 \<and>
      tasks r' = (tasks r1)[i := Returned tok (Some e)] \<and>
      (\<forall>t. Finished i t \<notin> set evs) \<and> (\<forall>c ts. Spawned i c ts \<notin> set evs)"
    by (cases rule: step_cases) auto
  with s show "last (snd (step env r1 ch)) = Exit i (Some e)"
    and "states (fst (step env r1 ch)) = states r1"
    and "tasks (fst (step env r1 ch)) = (tasks r1)[i := Returned tok (Some e)]"
    and "\<forall>t. Finished i t \<notin> set (snd (step env r1 ch))"
    and "\<forall>c ts. Spawned i c ts \<notin> set (snd (step env r1 ch))"
    by simp_all
next
  assume a: "Read env r0 sched = ((r, tr), res) \<and> Exit i (Some e) \<in> set tr"
  then have inv: "invariant env r tr" by (blast intro: Read_trace)
  then have hist: "inv_hist r tr" and own: "inv_own r" by (simp_all add: invariant_def)
  from a inv_hist_Exit_Some [OF hist] obtain tok
    where lt: "i < length (tasks r)" and t: "tasks r ! i = Returned tok (Some e)"
    by blast
  show "\<forall>t. Finished i t \<notin> set tr"
  proof
    fix k
    show "Finished i k \<notin> set tr"
    proof
      assume "Finished i k \<in> set tr"
      from inv_hist_event(2) [OF hist this] t show False by simp
    qed
  qed
  show "\<forall>c ts. Spawned i c ts \<notin> set tr"
  proof (intro allI)
    fix c ts
    show "Spawned i c ts \<notin> set tr"
    proof
      assume "Spawned i c ts \<in> set tr"
      from inv_hist_event(2) [OF hist this] t show False by simp
    qed
  qed
  from t show "tasks r ! i = Returned (token (tasks r ! i)) (Some e)" by simp
  from own lt t show "states r (token (tasks r ! i)) = Some partitionStateReading"
    by (auto simp: inv_own_def)
qed

theorem startRead_error_keeps_reading_witness:
  "last (snd (step demo_env (fst (fst (Read demo_env demo_reader (take 13 demo_schedule))))
          (demo_choice 1 (NextError (Collaborator ''stream''))))) =
     Exit 1 (Some (Collaborator ''stream'')) \<and>
   Exit 1 (Some (Collaborator ''stream''))
     \<in> set (snd (fst (Read demo_env demo_reader demo_schedule))) \<and>
   tasks (fst (fst (Read demo_env demo_reader demo_schedule))) ! 1 =
     Returned ''A'' (Some (Collaborator ''stream'')) \<and>
   states (fst (fst (Read demo_env demo_reader demo_schedule))) ''A'' =
     Some partitionStateReading \<and>
   spawned 1 (snd (fst (Read demo_env demo_reader demo_schedule))) = []"
proof -
  let ?s = "Read demo_env demo_reader demo_schedule"
  let ?s' = "Read demo_env demo_reader (take 13 demo_schedule)"
  let ?e = "Collaborator ''stream''"
  let ?ch = "demo_choice 1 (NextError ?e)"
  note t = startRead_error_keeps_reading [of ?ch 1 "fst (fst ?s')" "''A''" "[]" ?e demo_env
      demo_reader demo_schedule "fst (fst ?s)" "snd (fst ?s)" "snd ?s"]
  have "goroutine ?ch = 1 \<and> 1 < length (tasks (fst (fst ?s'))) \<and>
    tasks (fst (fst ?s')) ! 1 = InDo ''A'' [] \<and> iterator ?ch = NextError ?e"
    by (simp add: demo_defs program_defs)
  with t have 1: "last (snd (step demo_env (fst (fst ?s')) ?ch)) = Exit 1 (Some ?e)"
    by blast
  have m: "Exit 1 (Some ?e) \<in> set (snd (fst ?s))"
    by (simp add: demo_defs program_defs)
  have "?s = ((fst (fst ?s), snd (fst ?s)), snd ?s)" by simp
  with m t have 2: "tasks (fst (fst ?s)) ! 1 =
      Returned (token (tasks (fst (fst ?s)) ! 1)) (Some ?e) \<and>
    states (fst (fst ?s)) (token (tasks (fst (fst ?s)) ! 1)) = Some partitionStateReading"
    by blast
  have 3: "token (tasks (fst (fst ?s)) ! 1) = ''A''"
    by (simp add: demo_defs program_defs)
  have 4: "spawned 1 (snd (fst ?s)) = []"
    by (simp add: demo_defs program_defs spawned_def)
  from 1 2 3 4 m show ?thesis by simp
qed

text \<open>
  C4. In a run of \<^verbatim>\<open>Read\<close>, under every schedule: when a goroutine has returned
  \<^verbatim>\<open>nil\<close>, it has asked \<^verbatim>\<open>canReadChild\<close> about every child that the results it handed
  to \<^verbatim>\<open>f\<close> announce, in their order and once each, and it has called \<^verbatim>\<open>r.group.Go\<close>
  for exactly those of them for which the answer was true, each with the
  \<^verbatim>\<open>StartTimestamp\<close> of its record; for each of these calls a goroutine other than the
  root closure is registered in the group, for the token of that child and, as long as
  it stands at the entry of \<^verbatim>\<open>startRead\<close>, with that timestamp. After its return the
  goroutine causes no further event, so no call of \<^verbatim>\<open>Go\<close> follows its return.

  Step by step: a result handed to \<^verbatim>\<open>f\<close> adds all the child partitions records of its
  change records to those gathered; \<^verbatim>\<open>markStateFinished\<close> is followed by the loop over
  every child of every record gathered; the answer recorded for a child is that of
  \<^verbatim>\<open>canReadChild\<close> on the registry of that moment, for the child at the head of the loop,
  and a true answer leaves the goroutine in front of the call of \<^verbatim>\<open>Go\<close> for this child;
  the call of \<^verbatim>\<open>Go\<close> registers, as the last goroutine of the group, \<^verbatim>\<open>startRead\<close> at its
  entry for the token of this child and the timestamp of its record, and raises the count
  of outstanding goroutines by one, while the caller goes on with the rest of the loop; a
  return lowers the count by one.

  At every moment of a run the count of outstanding goroutines is the number of
  goroutines that have not returned; the goroutines of the group are the root closure and
  one for each call of \<^verbatim>\<open>Go\<close>, in the order of the calls, each for the token of its
  call; and a child found eligible and not yet passed to \<^verbatim>\<open>Go\<close> belongs to a goroutine
  that has not returned, so the count is positive then.
\<close>

theorem startRead_spawns_before_return:
  "(Read env r0 sched = ((r, tr), res) \<and> Exit i None \<in> set tr \<longrightarrow>
      checked i tr = map snd (discovered i tr) \<and>
      length (verdicts i tr) = length (discovered i tr) \<and>
      spawnedAt i tr = map fst (filter snd (zip (discovered i tr) (verdicts i tr))) \<and>
      eligible i tr = spawned i tr \<and>
      (\<forall>(childStartTimestamp, child) \<in> set (spawnedAt i tr).
         \<exists>j<length (tasks r). 0 < j \<and>
           registered (tasks r ! j) (Token child) childStartTimestamp)) \<and>
   (Read env r0 sched = ((r, tr), res) \<and> Exit i x \<in> set tr \<and>
    run env (r, tr) sched' = (r', tr') \<longrightarrow>
      history i tr' = history i tr \<and> spawned i tr' = spawned i tr) \<and>
   (step env r1 ch = (r1', evs) \<and> Delivered i readResult None \<in> set evs \<longrightarrow>
      goroutine ch = i \<and> i < length (tasks r1) \<and>
      (\<exists>tok recs. tasks r1 ! i = InDo tok recs \<and>
         tasks r1' =
         (tasks r1)[i := InDo tok
            (recs @ concat (map ChildPartitionsRecords (ChangeRecords readResult)))])) \<and>
   (step env r1 ch = (r1', evs) \<and> Finished i partitionToken \<in> set evs \<longrightarrow>
      goroutine ch = i \<and> i < length (tasks r1) \<and>
      (\<exists>recs. tasks r1 ! i = AfterDo partitionToken recs \<and>
         tasks r1' =
         (tasks r1)[i := ChildLoop partitionToken
            (concat (map (\<lambda>rec. map (\<lambda>child. (StartTimestamp rec, child)) (ChildPartitions rec))
               recs))])) \<and>
   (step env r1 ch = (r1', evs) \<and> Checked i c b \<in> set evs \<longrightarrow>
      goroutine ch = i \<and> i < length (tasks r1) \<and> b = canReadChild r1 c \<and>
      states r1' = states r1 \<and> outstanding r1' = outstanding r1 \<and>
      (\<exists>tok ts todo. tasks r1 ! i = ChildLoop tok ((ts, c) # todo) \<and>
         tasks r1' =
         (tasks r1)[i := if b then CallGo tok (ts, c) todo else ChildLoop tok todo])) \<and>
   (step env r1 ch = (r1', evs) \<and> Spawned i c ts \<in> set evs \<longrightarrow>
      goroutine ch = i \<and> i < length (tasks r1) \<and>
      states r1' = states r1 \<and> outstanding r1' = outstanding r1 + 1 \<and>
      (\<exists>tok todo. tasks r1 ! i = CallGo tok (ts, c) todo \<and>
         tasks r1' = (tasks r1)[i := ChildLoop tok todo] @ [AtEntry (Token c) ts])) \<and>
   (step env r1 ch = (r1', evs) \<and> Exit i x \<in> set evs \<longrightarrow>
      goroutine ch = i \<and> i < length (tasks r1) \<and> \<not> isReturned (tasks r1 ! i) \<and>
      outstanding r1' = outstanding r1 - 1 \<and>
      (\<exists>tok. tasks r1' = (tasks r1)[i := Returned tok x])) \<and>
   (group_ptr r0 = None \<and> Read env r0 sched = ((r, tr), res) \<longrightarrow>
      outstanding r = length (filter (\<lambda>t. \<not> isReturned t) (tasks r)) \<and>
      length (tasks r) = 1 + spawns tr \<and>
      length (tasks r) = Suc (length (requests tr)) \<and>
      (\<forall>k<length (requests tr).
         registered (tasks r ! Suc k) (Token (fst (requests tr ! k))) (snd (requests tr ! k))) \<and>
      (\<forall>j<length (tasks r).
         eligible j tr =
         spawned j tr @ (case tasks r ! j of CallGo tok c todo \<Rightarrow> [snd c] | _ \<Rightarrow> []) \<and>
         (\<not> isReturned (tasks r ! j) \<longrightarrow> 0 < outstanding r)))"
proof (intro conjI impI allI ballI)
  assume a: "Read env r0 sched = ((r, tr), res) \<and> Exit i None \<in> set tr"
  then have inv: "invariant env r tr" and fresh: "group_ptr r0 = None"
    by (blast intro: Read_trace)+
  then have hist: "inv_hist r tr" and elig: "inv_elig r tr" by (simp_all add: invariant_def)
  from a fresh have loop: "inv_loop r tr" and reg: "inv_reg r tr"
    by (blast intro: reachable_loop)+
  from a inv_hist_Exit [OF hist] have lt: "i < length (tasks r)" and "isReturned (tasks r ! i)"
    by blast+
  with elig show "eligible i tr = spawned i tr"
    by (auto simp: inv_elig_def isReturned_def split: task.splits)
  from a inv_hist_event(2) [OF hist, of "Exit i None"]
  have "allowed (tasks r ! i) (Exit i None :: 'a event)" by simp
  then obtain tok where "tasks r ! i = Returned tok None"
    by (cases "(tasks r ! i, Exit i None :: 'a event)" rule: allowed.cases) auto
  with loop lt have l: "length (verdicts i tr) = length (discovered i tr) \<and>
      checked i tr = map snd (discovered i tr) \<and>
      spawnedAt i tr = map fst (filter snd (zip (discovered i tr) (verdicts i tr)))"
    unfolding inv_loop_def by (drule_tac x = i in spec) simp
  then show "checked i tr = map snd (discovered i tr)"
    and "length (verdicts i tr) = length (discovered i tr)"
    and "spawnedAt i tr = map fst (filter snd (zip (discovered i tr) (verdicts i tr)))"
    by simp_all
  fix p
  assume "p \<in> set (spawnedAt i tr)"
  then have "(snd p, fst p) \<in> set (requests tr)"
    using spawnedAt_requests [of "fst p" "snd p" i tr] by simp
  then obtain k where k: "k < length (requests tr)" "requests tr ! k = (snd p, fst p)"
    by (auto simp: in_set_conv_nth)
  with reg have "Suc k < length (tasks r)"
    and "registered (tasks r ! Suc k) (Token (snd p)) (fst p)"
    by (auto simp: inv_reg_def)
  then show "case p of (childStartTimestamp, child) \<Rightarrow>
      \<exists>j<length (tasks r). 0 < j \<and> registered (tasks r ! j) (Token child) childStartTimestamp"
    by (cases p) auto
next
  assume a: "Read env r0 sched = ((r, tr), res) \<and> Exit i x \<in> set tr \<and>
    run env (r, tr) sched' = (r', tr')"
  then have inv: "invariant env r tr" by (blast intro: Read_trace)
  then have hist: "inv_hist r tr" by (simp add: invariant_def)
  from a inv_hist_Exit [OF hist] have lt: "i < length (tasks r)" and "isReturned (tasks r ! i)"
    by blast+
  then obtain tok y where "tasks r ! i = Returned tok y"
    by (cases "tasks r ! i") simp_all
  from quiet_run [OF _ lt this] a show h: "history i tr' = history i tr" by blast
  from spawned_history [of i tr'] spawned_history [of i tr] h
  show "spawned i tr' = spawned i tr" by simp
next
  assume a: "step env r1 ch = (r1', evs) \<and> Delivered i readResult None \<in> set evs"
  then have s: "step env r1 ch = (r1', evs)" and m: "Delivered i readResult None \<in> set evs"
    by simp_all
  from s m obtain tok recs row where lt: "goroutine ch = i" "i < length (tasks r1)"
    and at: "tasks r1 ! i = InDo tok recs" "iterator ch = Row row"
      "decodeRow env r1 tok row = Inr readResult" "f_returns ch = None"
    by (cases rule: step_cases) auto
  from lt obtain g where g: "group_ptr r1 = Some g"
    by (cases "group_ptr r1") (auto simp: tasks_def)
  from s lt at g have "tasks r1' =
      (tasks r1)[i := InDo tok (appendChildPartitionsRecords recs (ChangeRecords readResult))]"
    by (auto simp: step_def Let_def isReturned_def tasks_def settle_def startRead_Do_def
        callback_def)
  moreover have "appendChildPartitionsRecords acc changeRecords =
      acc @ concat (map ChildPartitionsRecords changeRecords)" for acc changeRecords
    by (induction changeRecords arbitrary: acc) auto
  ultimately have "\<exists>tok recs. tasks r1 ! i = InDo tok recs \<and>
      tasks r1' =
      (tasks r1)[i := InDo tok
         (recs @ concat (map ChildPartitionsRecords (ChangeRecords readResult)))]"
    using at(1) by auto
  with lt show "goroutine ch = i" and "i < length (tasks r1)"
    and "\<exists>tok recs. tasks r1 ! i = InDo tok recs \<and>
      tasks r1' =
      (tasks r1)[i := InDo tok
         (recs @ concat (map ChildPartitionsRecords (ChangeRecords readResult)))]"
    by blast+
next
  assume a: "step env r1 ch = (r1', evs) \<and> Finished i partitionToken \<in> set evs"
  then have s: "step env r1 ch = (r1', evs)" and m: "Finished i partitionToken \<in> set evs"
    by simp_all
  from s m obtain recs where lt: "goroutine ch = i" "i < length (tasks r1)"
    and at: "tasks r1 ! i = AfterDo partitionToken recs"
    by (cases rule: step_cases) auto
  from lt obtain g where g: "group_ptr r1 = Some g"
    by (cases "group_ptr r1") (auto simp: tasks_def)
  from s lt at g have "tasks r1' =
      (tasks r1)[i := ChildLoop partitionToken
         (concat (map (\<lambda>rec. map (\<lambda>child. (StartTimestamp rec, child)) (ChildPartitions rec))
            recs))]"
    by (auto simp: step_def Let_def isReturned_def tasks_def settle_def startRead_finish_def
        markStateFinished_def children_def)
  with lt at show "goroutine ch = i" and "i < length (tasks r1)"
    and "\<exists>recs. tasks r1 ! i = AfterDo partitionToken recs \<and>
      tasks r1' =
      (tasks r1)[i := ChildLoop partitionToken
         (concat (map (\<lambda>rec. map (\<lambda>child. (StartTimestamp rec, child)) (ChildPartitions rec))
            recs))]"
    by blast+
next
  assume a: "step env r1 ch = (r1', evs) \<and> Checked i c b \<in> set evs"
  then have s: "step env r1 ch = (r1', evs)" and m: "Checked i c b \<in> set evs" by simp_all
  from s m obtain tok ts todo where lt: "goroutine ch = i" "i < length (tasks r1)"
    and at: "tasks r1 ! i = ChildLoop tok ((ts, c) # todo)"
    by (cases rule: step_cases) auto
  from lt obtain g where g: "group_ptr r1 = Some g"
    by (cases "group_ptr r1") (auto simp: tasks_def)
  from s lt at g have e: "evs = [Checked i c (canReadChild r1 c)]"
    by (auto simp: step_def Let_def isReturned_def tasks_def split: if_splits)
  with m have b: "b = canReadChild r1 c" by simp
  from s lt at g have "states r1' = states r1 \<and> outstanding r1' = outstanding r1 \<and>
      tasks r1' = (tasks r1)[i := if canReadChild r1 c then CallGo tok (ts, c) todo
        else ChildLoop tok todo]"
    by (auto simp: step_def Let_def isReturned_def tasks_def outstanding_def settle_def
        split: if_splits)
  with lt at b show "goroutine ch = i" and "i < length (tasks r1)" and "b = canReadChild r1 c"
    and "states r1' = states r1" and "outstanding r1' = outstanding r1"
    and "\<exists>tok ts todo. tasks r1 ! i = ChildLoop tok ((ts, c) # todo) \<and>
         tasks r1' =
         (tasks r1)[i := if b then CallGo tok (ts, c) todo else ChildLoop tok todo]"
    by blast+
next
  assume a: "step env r1 ch = (r1', evs) \<and> Spawned i c ts \<in> set evs"
  then have s: "step env r1 ch = (r1', evs)" and m: "Spawned i c ts \<in> set evs" by simp_all
  from s m obtain tok todo where lt: "goroutine ch = i" "i < length (tasks r1)"
    and at: "tasks r1 ! i = CallGo tok (ts, c) todo"
    by (cases rule: step_cases) auto
  from lt obtain g where g: "group_ptr r1 = Some g"
    by (cases "group_ptr r1") (auto simp: tasks_def)
  with s lt at have "states r1' = states r1 \<and> outstanding r1' = outstanding r1 + 1 \<and>
      tasks r1' = (tasks r1)[i := ChildLoop tok todo] @ [AtEntry (Token c) ts]"
    by (auto simp: step_def Let_def isReturned_def startRead_Go_def tasks_def outstanding_def
        settle_def Go_def list_update_append1)
  with lt at show "goroutine ch = i" and "i < length (tasks r1)"
    and "states r1' = states r1" and "outstanding r1' = outstanding r1 + 1"
    and "\<exists>tok todo. tasks r1 ! i = CallGo tok (ts, c) todo \<and>
         tasks r1' = (tasks r1)[i := ChildLoop tok todo] @ [AtEntry (Token c) ts]"
    by blast+
next
  assume a: "step env r1 ch = (r1', evs) \<and> Exit i x \<in> set evs"
  then have s: "step env r1 ch = (r1', evs)" and m: "Exit i x \<in> set evs" by simp_all
  from s m have "goroutine ch = i \<and> i < length (tasks r1) \<and> \<not> isReturned (tasks r1 ! i) \<and>
      outstanding r1' = outstanding r1 - 1 \<and>
      (\<exists>tok. tasks r1' = (tasks r1)[i := Returned tok x])"
    by (cases rule: step_cases) auto
  then show "goroutine ch = i" and "i < length (tasks r1)" and "\<not> isReturned (tasks r1 ! i)"
    and "outstanding r1' = outstanding r1 - 1"
    and "\<exists>tok. tasks r1' = (tasks r1)[i := Returned tok x]"
    by blast+
next
  assume a: "group_ptr r0 = None \<and> Read env r0 sched = ((r, tr), res)"
  then have inv: "invariant env r tr" by (blast intro: reachable)
  from a have reg: "inv_reg r tr" by (blast intro: reachable_loop)
  from inv show wg: "outstanding r = length (filter (\<lambda>t. \<not> isReturned t) (tasks r))"
    by (simp add: invariant_def inv_wg_def)
  from inv show "length (tasks r) = 1 + spawns tr"
    by (simp add: invariant_def inv_len_def)
  from reg show "length (tasks r) = Suc (length (requests tr))"
    by (simp add: inv_reg_def)
  {
    fix k
    assume "k < length (requests tr)"
    with reg show "registered (tasks r ! Suc k) (Token (fst (requests tr ! k)))
        (snd (requests tr ! k))"
      by (simp add: inv_reg_def)
  }
  fix j
  assume j: "j < length (tasks r)"
  with inv show "eligible j tr =
      spawned j tr @ (case tasks r ! j of CallGo tok c todo \<Rightarrow> [snd c] | _ \<Rightarrow> [])"
    by (simp add: invariant_def inv_elig_def)
  assume "\<not> isReturned (tasks r ! j)"
  with j have "tasks r ! j \<in> set (filter (\<lambda>t. \<not> isReturned t) (tasks r))" by simp
  then have "filter (\<lambda>t. \<not> isReturned t) (tasks r) \<noteq> []" by force
  with wg show "0 < outstanding r" by simp
qed

theorem startRead_spawns_before_return_witness:
  "Exit 0 None \<in> set (snd (fst (Read demo_env demo_reader (take 12 demo_split_schedule)))) \<and>
   discovered 0 (snd (fst (Read demo_env demo_reader (take 12 demo_split_schedule)))) =
     [(7, demo_A), (8, demo_B), (9, demo_C)] \<and>
   verdicts 0 (snd (fst (Read demo_env demo_reader (take 12 demo_split_schedule)))) =
     [True, False, True] \<and>
   checked 0 (snd (fst (Read demo_env demo_reader (take 12 demo_split_schedule)))) =
     [demo_A, demo_B, demo_C] \<and>
   spawnedAt 0 (snd (fst (Read demo_env demo_reader (take 12 demo_split_schedule)))) =
     [(7, demo_A), (9, demo_C)] \<and>
   eligible 0 (snd (fst (Read demo_env demo_reader (take 12 demo_split_schedule)))) =
     [demo_A, demo_C] \<and>
   requests (snd (fst (Read demo_env demo_reader (take 12 demo_split_schedule)))) =
     [(demo_A, 7), (demo_C, 9)] \<and>
   tasks (fst (fst (Read demo_env demo_reader (take 12 demo_split_schedule)))) =
     [Returned [] None, AtEntry ''A'' 7, AtEntry ''C'' 9] \<and>
   registered (tasks (fst (fst (Read demo_env demo_reader (take 12 demo_split_schedule)))) ! 1)
     ''A'' 7 \<and>
   registered (tasks (fst (fst (Read demo_env demo_reader (take 12 demo_split_schedule)))) ! 2)
     ''C'' 9 \<and>
   (\<exists>j. 0 < j \<and>
      j < length (tasks (fst (fst (Read demo_env demo_reader (take 12 demo_split_schedule))))) \<and>
      registered (tasks (fst (fst (Read demo_env demo_reader (take 12 demo_split_schedule)))) ! j)
        ''C'' 9) \<and>
   outstanding (fst (fst (Read demo_env demo_reader (take 12 demo_split_schedule)))) = 2 \<and>
   spawned 0 (snd (fst (Read demo_env demo_reader demo_split_schedule))) = [demo_A, demo_C] \<and>
   tasks (fst (fst (Read demo_env demo_reader demo_split_schedule))) =
     [Returned [] None, InDo ''A'' [], AtEntry ''C'' 9] \<and>
   snd (step demo_env (fst (fst (Read demo_env demo_reader (take 2 demo_split_schedule))))
     (demo_choice 0 (Row (Some demo_first)))) =
     [Produced 0 (Some demo_first),
      Delivered 0 \<lparr>PartitionToken = [], ChangeRecords = demo_first\<rparr> None] \<and>
   tasks (fst (step demo_env (fst (fst (Read demo_env demo_reader (take 2 demo_split_schedule))))
     (demo_choice 0 (Row (Some demo_first))))) =
     [InDo [] (ChildPartitionsRecords (hd demo_first))] \<and>
   (\<exists>tok recs.
      tasks (fst (fst (Read demo_env demo_reader (take 2 demo_split_schedule)))) ! 0 =
      InDo tok recs) \<and>
   snd (step demo_env (fst (fst (Read demo_env demo_reader (take 5 demo_split_schedule))))
     (demo_choice 0 IteratorDone)) = [Finished 0 []] \<and>
   tasks (fst (fst (Read demo_env demo_reader (take 5 demo_split_schedule)))) =
     [AfterDo [] (ChildPartitionsRecords (hd demo_first) @
        ChildPartitionsRecords (hd demo_second))] \<and>
   (\<exists>recs.
      tasks (fst (fst (Read demo_env demo_reader (take 5 demo_split_schedule)))) ! 0 =
      AfterDo [] recs) \<and>
   tasks (fst (fst (Read demo_env demo_reader (take 6 demo_split_schedule)))) =
     [ChildLoop [] [(7, demo_A), (8, demo_B), (9, demo_C)]] \<and>
   snd (step demo_env (fst (fst (Read demo_env demo_reader (take 6 demo_split_schedule))))
     (demo_choice 0 IteratorDone)) = [Checked 0 demo_A True] \<and>
   canReadChild (fst (fst (Read demo_env demo_reader (take 6 demo_split_schedule)))) demo_A \<and>
   tasks (fst (fst (Read demo_env demo_reader (take 7 demo_split_schedule)))) =
     [CallGo [] (7, demo_A) [(8, demo_B), (9, demo_C)]] \<and>
   eligible 0 (snd (fst (Read demo_env demo_reader (take 7 demo_split_schedule)))) = [demo_A] \<and>
   spawned 0 (snd (fst (Read demo_env demo_reader (take 7 demo_split_schedule)))) = [] \<and>
   outstanding (fst (fst (Read demo_env demo_reader (take 7 demo_split_schedule)))) = 1 \<and>
   0 < outstanding (fst (fst (Read demo_env demo_reader (take 7 demo_split_schedule)))) \<and>
   snd (step demo_env (fst (fst (Read demo_env demo_reader (take 7 demo_split_schedule))))
     (demo_choice 0 IteratorDone)) = [Spawned 0 demo_A 7] \<and>
   tasks (fst (step demo_env (fst (fst (Read demo_env demo_reader (take 7 demo_split_schedule))))
     (demo_choice 0 IteratorDone))) =
     [ChildLoop [] [(8, demo_B), (9, demo_C)], AtEntry ''A'' 7] \<and>
   outstanding (fst (step demo_env
     (fst (fst (Read demo_env demo_reader (take 7 demo_split_schedule))))
     (demo_choice 0 IteratorDone))) = 2 \<and>
   snd (step demo_env (fst (fst (Read demo_env demo_reader (take 11 demo_split_schedule))))
     (demo_choice 0 IteratorDone)) = [Exit 0 None] \<and>
   outstanding (fst (fst (Read demo_env demo_reader (take 11 demo_split_schedule)))) = 3"
proof -
  let ?s = "Read demo_env demo_reader demo_split_schedule"
  let ?s12 = "Read demo_env demo_reader (take 12 demo_split_schedule)"
  let ?s11 = "Read demo_env demo_reader (take 11 demo_split_schedule)"
  let ?s7 = "Read demo_env demo_reader (take 7 demo_split_schedule)"
  let ?s6 = "Read demo_env demo_reader (take 6 demo_split_schedule)"
  let ?ch = "demo_choice 0 IteratorDone :: ChangeRecord list option choice"
  let ?go = "step demo_env (fst (fst ?s7)) ?ch"
  let ?ask = "step demo_env (fst (fst ?s6)) ?ch"
  let ?ret = "step demo_env (fst (fst ?s11)) ?ch"
  let ?s5 = "Read demo_env demo_reader (take 5 demo_split_schedule)"
  let ?s2 = "Read demo_env demo_reader (take 2 demo_split_schedule)"
  let ?row = "demo_choice 0 (Row (Some demo_first))"
  let ?rr = "\<lparr>PartitionToken = [], ChangeRecords = demo_first\<rparr>"
  let ?fin = "step demo_env (fst (fst ?s5)) ?ch"
  let ?del = "step demo_env (fst (fst ?s2)) ?row"
  note t = startRead_spawns_before_return [where env = demo_env and ?r0.0 = demo_reader
      and sched = "take 12 demo_split_schedule" and r = "fst (fst ?s12)"
      and tr = "snd (fst ?s12)" and res = "snd ?s12" and i = 0 and x = None
      and sched' = "drop 12 demo_split_schedule" and r' = "fst (fst ?s)"
      and tr' = "snd (fst ?s)" and ?r1.0 = "fst (fst ?s7)" and ch = ?ch
      and r1' = "fst ?go" and evs = "snd ?go" and c = demo_A and ts = 7 and b = True]
  note t7 = startRead_spawns_before_return [where env = demo_env and ?r0.0 = demo_reader
      and sched = "take 7 demo_split_schedule" and r = "fst (fst ?s7)"
      and tr = "snd (fst ?s7)" and res = "snd ?s7" and i = 0 and x = None
      and sched' = "[]" and r' = "fst (fst ?s7)"
      and tr' = "snd (fst ?s7)" and ?r1.0 = "fst (fst ?s6)" and ch = ?ch
      and r1' = "fst ?ask" and evs = "snd ?ask" and c = demo_A and ts = 7 and b = True]
  note t11 = startRead_spawns_before_return [where env = demo_env and ?r0.0 = demo_reader
      and sched = "take 11 demo_split_schedule" and r = "fst (fst ?s11)"
      and tr = "snd (fst ?s11)" and res = "snd ?s11" and i = 0 and x = None
      and sched' = "[]" and r' = "fst (fst ?s11)"
      and tr' = "snd (fst ?s11)" and ?r1.0 = "fst (fst ?s11)" and ch = ?ch
      and r1' = "fst ?ret" and evs = "snd ?ret" and c = demo_A and ts = 7 and b = True]
  note t5 = startRead_spawns_before_return [where env = demo_env and ?r0.0 = demo_reader
      and sched = "take 5 demo_split_schedule" and r = "fst (fst ?s5)"
      and tr = "snd (fst ?s5)" and res = "snd ?s5" and i = 0 and x = None
      and sched' = "[]" and r' = "fst (fst ?s5)"
      and tr' = "snd (fst ?s5)" and ?r1.0 = "fst (fst ?s5)" and ch = ?ch
      and r1' = "fst ?fin" and evs = "snd ?fin" and c = demo_A and ts = 7 and b = True
      and partitionToken = "[]" and readResult = ?rr]
  note t2 = startRead_spawns_before_return [where env = demo_env and ?r0.0 = demo_reader
      and sched = "take 2 demo_split_schedule" and r = "fst (fst ?s2)"
      and tr = "snd (fst ?s2)" and res = "snd ?s2" and i = 0 and x = None
      and sched' = "[]" and r' = "fst (fst ?s2)"
      and tr' = "snd (fst ?s2)" and ?r1.0 = "fst (fst ?s2)" and ch = ?row
      and r1' = "fst ?del" and evs = "snd ?del" and c = demo_A and ts = 7 and b = True
      and partitionToken = "[]" and readResult = ?rr]
  have del: "snd ?del = [Produced 0 (Some demo_first), Delivered 0 ?rr None]"
    by (simp add: demo_split_defs program_defs)
  have tsdel: "tasks (fst ?del) = [InDo [] (ChildPartitionsRecords (hd demo_first))]"
    by (simp add: demo_split_defs program_defs)
  have "?del = (fst ?del, snd ?del)" by simp
  moreover have "Delivered 0 ?rr None \<in> set (snd ?del)" unfolding del by simp
  ultimately have 10: "\<exists>tok recs. tasks (fst (fst ?s2)) ! 0 = InDo tok recs"
    using t2 by blast
  have fin: "snd ?fin = [Finished 0 []]"
    by (simp add: demo_split_defs program_defs)
  have ts5: "tasks (fst (fst ?s5)) =
      [AfterDo [] (ChildPartitionsRecords (hd demo_first) @
         ChildPartitionsRecords (hd demo_second))]"
    by (simp add: demo_split_defs program_defs)
  have "?fin = (fst ?fin, snd ?fin)" by simp
  moreover have "Finished 0 [] \<in> set (snd ?fin)" unfolding fin by simp
  ultimately have 11: "\<exists>recs. tasks (fst (fst ?s5)) ! 0 = AfterDo [] recs"
    using t5 by blast
  have g: "group_ptr demo_reader = None" by (simp add: demo_reader_def)
  have c12: "?s12 = ((fst (fst ?s12), snd (fst ?s12)), snd ?s12)" by simp
  have c7: "?s7 = ((fst (fst ?s7), snd (fst ?s7)), snd ?s7)" by simp
  have tr12: "snd (fst ?s12) =
      [Claim 0 [] True,
       Produced 0 (Some demo_first),
       Delivered 0 \<lparr>PartitionToken = [], ChangeRecords = demo_first\<rparr> None,
       Produced 0 (Some demo_second),
       Delivered 0 \<lparr>PartitionToken = [], ChangeRecords = demo_second\<rparr> None,
       Finished 0 [], Checked 0 demo_A True, Spawned 0 demo_A 7, Checked 0 demo_B False,
       Checked 0 demo_C True, Spawned 0 demo_C 9, Exit 0 None]"
    by (simp add: demo_split_defs program_defs)
  have m: "Exit 0 None \<in> set (snd (fst ?s12))" unfolding tr12 by simp
  have d: "discovered 0 (snd (fst ?s12)) = [(7, demo_A), (8, demo_B), (9, demo_C)]"
    unfolding tr12 by (simp add: discovered_def delivered_def demo_first_def demo_second_def)
  have v: "verdicts 0 (snd (fst ?s12)) = [True, False, True]"
    unfolding tr12 by (simp add: verdicts_def)
  have ck: "checked 0 (snd (fst ?s12)) = [demo_A, demo_B, demo_C]"
    unfolding tr12 by (simp add: checked_def)
  have sa: "spawnedAt 0 (snd (fst ?s12)) = [(7, demo_A), (9, demo_C)]"
    unfolding tr12 by (simp add: spawnedAt_def)
  have sp: "spawned 0 (snd (fst ?s12)) = [demo_A, demo_C]"
    unfolding tr12 by (simp add: spawned_def)
  have rq: "requests (snd (fst ?s12)) = [(demo_A, 7), (demo_C, 9)]"
    unfolding tr12 by (simp add: requests_def)
  have ts12: "tasks (fst (fst ?s12)) = [Returned [] None, AtEntry ''A'' 7, AtEntry ''C'' 9]"
    by (simp add: demo_split_defs program_defs)
  from t m c12 have "checked 0 (snd (fst ?s12)) = map snd (discovered 0 (snd (fst ?s12))) \<and>
      spawnedAt 0 (snd (fst ?s12)) =
        map fst (filter snd (zip (discovered 0 (snd (fst ?s12))) (verdicts 0 (snd (fst ?s12))))) \<and>
      eligible 0 (snd (fst ?s12)) = spawned 0 (snd (fst ?s12))"
    by blast
  with sp have 1: "eligible 0 (snd (fst ?s12)) = [demo_A, demo_C]" by simp
  from t m c12 have "\<forall>(childStartTimestamp, child) \<in> set (spawnedAt 0 (snd (fst ?s12))).
      \<exists>j<length (tasks (fst (fst ?s12))). 0 < j \<and>
        registered (tasks (fst (fst ?s12)) ! j) (Token child) childStartTimestamp"
    by blast
  then have "\<exists>j<length (tasks (fst (fst ?s12))). 0 < j \<and>
      registered (tasks (fst (fst ?s12)) ! j) (Token demo_C) 9"
    unfolding sa by simp
  then have 9: "\<exists>j. 0 < j \<and> j < length (tasks (fst (fst ?s12))) \<and>
      registered (tasks (fst (fst ?s12)) ! j) ''C'' 9"
    by (auto simp: demo_C_def)
  from t g c12 have "\<forall>k<length (requests (snd (fst ?s12))).
      registered (tasks (fst (fst ?s12)) ! Suc k) (Token (fst (requests (snd (fst ?s12)) ! k)))
        (snd (requests (snd (fst ?s12)) ! k))"
    by blast
  then have "(0 < length (requests (snd (fst ?s12))) \<longrightarrow>
      registered (tasks (fst (fst ?s12)) ! Suc 0) (Token (fst (requests (snd (fst ?s12)) ! 0)))
        (snd (requests (snd (fst ?s12)) ! 0))) \<and>
    (1 < length (requests (snd (fst ?s12))) \<longrightarrow>
      registered (tasks (fst (fst ?s12)) ! Suc 1) (Token (fst (requests (snd (fst ?s12)) ! 1)))
        (snd (requests (snd (fst ?s12)) ! 1)))"
    by blast
  then have "registered (tasks (fst (fst ?s12)) ! Suc 0) (Token demo_A) 7 \<and>
      registered (tasks (fst (fst ?s12)) ! Suc 1) (Token demo_C) 9"
    unfolding rq by simp
  then have 2: "registered (tasks (fst (fst ?s12)) ! 1) ''A'' 7 \<and>
      registered (tasks (fst (fst ?s12)) ! 2) ''C'' 9"
    by (simp add: demo_A_def demo_C_def numeral_2_eq_2)
  have live: "length (filter (\<lambda>t. \<not> isReturned t) (tasks (fst (fst ?s12)))) = 2"
    unfolding ts12 by (simp add: isReturned_def)
  from t g c12 have "outstanding (fst (fst ?s12)) =
      length (filter (\<lambda>t. \<not> isReturned t) (tasks (fst (fst ?s12))))"
    by blast
  with live have 3: "outstanding (fst (fst ?s12)) = 2" by simp
  have "run demo_env (fst (fst ?s12), snd (fst ?s12)) (drop 12 demo_split_schedule) =
      (fst (fst ?s), snd (fst ?s))"
    by (simp add: demo_split_defs program_defs)
  with t m c12 have "spawned 0 (snd (fst ?s)) = spawned 0 (snd (fst ?s12))" by blast
  with sp have 4: "spawned 0 (snd (fst ?s)) = [demo_A, demo_C]" by simp
  have ts: "tasks (fst (fst ?s)) = [Returned [] None, InDo ''A'' [], AtEntry ''C'' 9]"
    by (simp add: demo_split_defs program_defs)
  have ts6: "tasks (fst (fst ?s6)) = [ChildLoop [] [(7, demo_A), (8, demo_B), (9, demo_C)]]"
    by (simp add: demo_split_defs program_defs)
  have ask: "snd ?ask = [Checked 0 demo_A True]"
    by (simp add: demo_split_defs program_defs)
  have "?ask = (fst ?ask, snd ?ask)" by simp
  moreover have "Checked 0 demo_A True \<in> set (snd ?ask)" unfolding ask by simp
  ultimately have 5: "True = canReadChild (fst (fst ?s6)) demo_A" using t7 by blast
  have ts7: "tasks (fst (fst ?s7)) = [CallGo [] (7, demo_A) [(8, demo_B), (9, demo_C)]]"
    by (simp add: demo_split_defs program_defs)
  have sp7: "spawned 0 (snd (fst ?s7)) = []"
    by (simp add: demo_split_defs program_defs spawned_def)
  have o7: "outstanding (fst (fst ?s7)) = 1"
    by (simp add: demo_split_defs program_defs)
  have "0 < length (tasks (fst (fst ?s7)))" unfolding ts7 by simp
  with t7 g c7 have "eligible 0 (snd (fst ?s7)) =
      spawned 0 (snd (fst ?s7)) @
      (case tasks (fst (fst ?s7)) ! 0 of CallGo tok c todo \<Rightarrow> [snd c] | _ \<Rightarrow> []) \<and>
      (\<not> isReturned (tasks (fst (fst ?s7)) ! 0) \<longrightarrow> 0 < outstanding (fst (fst ?s7)))"
    by blast
  with sp7 have 6: "eligible 0 (snd (fst ?s7)) = [demo_A] \<and> 0 < outstanding (fst (fst ?s7))"
    unfolding ts7 by (simp add: isReturned_def)
  have go: "snd ?go = [Spawned 0 demo_A 7]"
    by (simp add: demo_split_defs program_defs)
  have tsgo: "tasks (fst ?go) = [ChildLoop [] [(8, demo_B), (9, demo_C)], AtEntry ''A'' 7]"
    by (simp add: demo_split_defs program_defs)
  have "?go = (fst ?go, snd ?go)" by simp
  moreover have "Spawned 0 demo_A 7 \<in> set (snd ?go)" unfolding go by simp
  ultimately have "outstanding (fst ?go) = outstanding (fst (fst ?s7)) + 1" using t by blast
  with o7 have 7: "outstanding (fst ?go) = 2" by simp
  have ret: "snd ?ret = [Exit 0 None]"
    by (simp add: demo_split_defs program_defs)
  have o12: "outstanding (fst ?ret) = 2"
    by (simp add: demo_split_defs program_defs)
  have o11: "0 < outstanding (fst (fst ?s11))"
    by (simp add: demo_split_defs program_defs)
  have "?ret = (fst ?ret, snd ?ret)" by simp
  moreover have "Exit 0 None \<in> set (snd ?ret)" unfolding ret by simp
  ultimately have "outstanding (fst ?ret) = outstanding (fst (fst ?s11)) - 1" using t11 by blast
  with o12 o11 have 8: "outstanding (fst (fst ?s11)) = 3" by simp
  from m d v ck sa 1 rq ts12 2 9 3 4 ts del tsdel 10 fin ts5 11 ts6 ask 5 ts7 6 sp7 o7 go tsgo 7
    ret 8
  show ?thesis by blast
qed

text \<open>
  C5. For a reader made by \<^verbatim>\<open>NewReaderWithConfig\<close>, under every schedule and for every
  token, the states that the token takes in \<^verbatim>\<open>states\<close> during \<^verbatim>\<open>Read\<close> (an absent
  token reads as \<^verbatim>\<open>partitionStateUnknown\<close>), without the repetitions, are Unknown, or
  Unknown then Reading, or Unknown then Reading then Finished. \<^verbatim>\<open>markStateReading\<close>
  changes an entry only from absent to Reading. Every step leaves a token as it is, or
  takes it from absent to Reading, or from Reading to Finished; the goroutine that calls
  \<^verbatim>\<open>markStateFinished\<close> for a token is one whose \<^verbatim>\<open>markStateReading\<close> of that token
  returned true, and a call of \<^verbatim>\<open>markStateReading\<close> returns true only for a token
  that has no entry and that no goroutine has claimed before.
\<close>

theorem states_only_move_forward:
  assumes "NewReaderWithConfig client detected sid config = Inr r0"
  shows "(remdups_adj (stateHistory env r0 sched tok) = [partitionStateUnknown] \<or>
          remdups_adj (stateHistory env r0 sched tok) =
            [partitionStateUnknown, partitionStateReading] \<or>
          remdups_adj (stateHistory env r0 sched tok) =
            [partitionStateUnknown, partitionStateReading, partitionStateFinished]) \<and>
         (states (snd (markStateReading r1 tok1)) tok = states r1 tok \<or>
          (states r1 tok = None \<and>
           states (snd (markStateReading r1 tok1)) tok = Some partitionStateReading)) \<and>
         (Read env r0 sched = ((r, tr), res) \<and> step env r ch = (r', evs) \<longrightarrow>
            (states r' tok = states r tok \<or>
             (states r tok = None \<and> states r' tok = Some partitionStateReading) \<or>
             (states r tok = Some partitionStateReading \<and>
              states r' tok = Some partitionStateFinished)) \<and>
            (Finished i tok \<in> set evs \<longrightarrow>
               Claim i tok True \<in> set tr \<and> states r tok = Some partitionStateReading) \<and>
            (Claim i tok True \<in> set evs \<longrightarrow> states r tok = None \<and> claims tok tr = []))"
proof (intro conjI impI)
  note fresh = NewReader_fresh [OF assms]
  let ?h = "remdups_adj (stateHistory env r0 sched tok)"
  from stateHistory_shape [OF assms, of env sched tok]
  show "?h = [partitionStateUnknown] \<or> ?h = [partitionStateUnknown, partitionStateReading] \<or>
      ?h = [partitionStateUnknown, partitionStateReading, partitionStateFinished]"
    by (cases "index (states (fst (fst (Read env r0 sched)))) tok") simp_all
  show "states (snd (markStateReading r1 tok1)) tok = states r1 tok \<or>
      (states r1 tok = None \<and>
       states (snd (markStateReading r1 tok1)) tok = Some partitionStateReading)"
    by (simp add: markStateReading_def split: option.splits)
  assume a: "Read env r0 sched = ((r, tr), res) \<and> step env r ch = (r', evs)"
  then have run: "Read env r0 sched = ((r, tr), res)" and s: "step env r ch = (r', evs)"
    by simp_all
  from reachable [OF fresh(1) run]
  have own: "inv_own r" and cl: "inv_claimed r tr" and once: "inv_once r tr"
    by (simp_all add: invariant_def)
  from forward_step [OF own s]
  show "states r' tok = states r tok \<or>
      (states r tok = None \<and> states r' tok = Some partitionStateReading) \<or>
      (states r tok = Some partitionStateReading \<and>
       states r' tok = Some partitionStateFinished)" .
  {
    assume "Finished i tok \<in> set evs"
    with s own cl
    have "Claim i tok True \<in> set tr \<and> states r tok = Some partitionStateReading"
      by (cases rule: step_cases) (auto simp: inv_own_def inv_claimed_def)
    then show "Claim i tok True \<in> set tr" and "states r tok = Some partitionStateReading"
      by simp_all
  }
  {
    assume "Claim i tok True \<in> set evs"
    with s have "states r tok = None"
      by (cases rule: step_cases) auto
    with once show "states r tok = None" and "claims tok tr = []"
      by (simp_all add: inv_once_def)
  }
qed

theorem states_only_move_forward_witness:
  "remdups_adj (stateHistory demo_env demo_reader (take 6 demo_schedule) []) =
     [partitionStateUnknown, partitionStateReading, partitionStateFinished] \<and>
   stateHistory demo_env demo_reader (take 6 demo_schedule) [] =
     [partitionStateUnknown, partitionStateUnknown, partitionStateReading,
      partitionStateReading, partitionStateReading, partitionStateFinished,
      partitionStateFinished] \<and>
   snd (step demo_env (fst (fst (Read demo_env demo_reader (take 4 demo_schedule))))
          (demo_choice 0 IteratorDone)) = [Finished 0 []] \<and>
   Claim 0 [] True \<in> set (snd (fst (Read demo_env demo_reader (take 4 demo_schedule)))) \<and>
   states (fst (fst (Read demo_env demo_reader (take 4 demo_schedule)))) [] =
     Some partitionStateReading"
proof -
  let ?U = partitionStateUnknown and ?R = partitionStateReading and ?F = partitionStateFinished
  let ?s = "Read demo_env demo_reader (take 4 demo_schedule)"
  let ?st = "step demo_env (fst (fst ?s)) (demo_choice 0 IteratorDone)"
  let ?cfg = "\<lparr>StartTimestamp_cfg = 0, EndTimestamp_cfg = 0, HeartbeatInterval_cfg = 0\<rparr>"
  have new: "NewReaderWithConfig None (Inr dialectGoogleSQL) ''Stream'' ?cfg = Inr demo_reader"
    by (simp add: NewReaderWithConfig_def demo_reader_def)
  note t = states_only_move_forward [OF new, of demo_env "take 4 demo_schedule" "[]"
      demo_reader "[]" "fst (fst ?s)" "snd (fst ?s)" "snd ?s" "demo_choice 0 IteratorDone"
      "fst ?st" "snd ?st" 0]
  have h: "stateHistory demo_env demo_reader (take 6 demo_schedule) [] =
      [?U, ?U, ?R, ?R, ?R, ?F, ?F]"
    by (simp add: stateHistory_def upt_rec demo_defs program_defs)
  then have 1: "remdups_adj (stateHistory demo_env demo_reader (take 6 demo_schedule) []) =
      [?U, ?R, ?F]"
    by simp
  have ev: "snd ?st = [Finished 0 []]"
    by (simp add: demo_defs program_defs)
  have m: "Finished 0 [] \<in> set (snd ?st)" unfolding ev by simp
  have "?s = ((fst (fst ?s), snd (fst ?s)), snd ?s) \<and> ?st = (fst ?st, snd ?st)" by simp
  with t m have 2: "Claim 0 [] True \<in> set (snd (fst ?s)) \<and>
      states (fst (fst ?s)) [] = Some ?R"
    by blast
  from h 1 2 ev show ?thesis by blast
qed

text \<open>
  C6. A call of \<^verbatim>\<open>Read\<close> on a reader whose \<^verbatim>\<open>group\<close> field is set returns the error
  "reader has already been read" at once: under every schedule it leaves the reader as it
  found it (the \<^verbatim>\<open>states\<close> map and the group included) and causes no event, so no
  second root goroutine is started. The field is set in every reader that an earlier call
  of \<^verbatim>\<open>Read\<close> has left, whatever the schedule of that call.
\<close>

theorem Read_reentry:
  "(group_ptr r \<noteq> None \<longrightarrow>
      Read_enter r = (r, Some (ErrorString ''reader has already been read'')) \<and>
      Read env r sched' = ((r, []), Some (Some (ErrorString ''reader has already been read'')))) \<and>
   (Read env r0 sched = ((r, tr), res) \<longrightarrow> group_ptr r \<noteq> None)"
proof (intro conjI impI)
  assume "group_ptr r \<noteq> None"
  then show "Read_enter r = (r, Some (ErrorString ''reader has already been read''))"
    by (auto simp: Read_enter_def)
  then show "Read env r sched' =
      ((r, []), Some (Some (ErrorString ''reader has already been read'')))"
    by (simp add: Read_def)
next
  assume "Read env r0 sched = ((r, tr), res)"
  from Read_group [OF this] show "group_ptr r \<noteq> None"
    by (cases "group_ptr r0") (auto simp: invariant_def)
qed

theorem Read_reentry_witness:
  "Read_enter (fst (fst (Read demo_env demo_reader (take 3 demo_schedule)))) =
     (fst (fst (Read demo_env demo_reader (take 3 demo_schedule))),
      Some (ErrorString ''reader has already been read'')) \<and>
   Read demo_env (fst (fst (Read demo_env demo_reader (take 3 demo_schedule)))) demo_schedule =
     ((fst (fst (Read demo_env demo_reader (take 3 demo_schedule))), []),
      Some (Some (ErrorString ''reader has already been read''))) \<and>
   tasks (fst (fst (Read demo_env demo_reader (take 3 demo_schedule)))) =
     [InDo [] (ChildPartitionsRecords (hd demo_records))]"
proof -
  let ?s = "Read demo_env demo_reader (take 3 demo_schedule)"
  have "?s = ((fst (fst ?s), snd (fst ?s)), snd ?s)" by simp
  with Read_reentry [of "fst (fst ?s)" demo_env demo_schedule demo_reader "take 3 demo_schedule"
      "snd (fst ?s)" "snd ?s"]
  have "Read_enter (fst (fst ?s)) =
     (fst (fst ?s), Some (ErrorString ''reader has already been read'')) \<and>
   Read demo_env (fst (fst ?s)) demo_schedule =
     ((fst (fst ?s), []), Some (Some (ErrorString ''reader has already been read'')))"
    by blast
  moreover have "tasks (fst (fst ?s)) = [InDo [] (ChildPartitionsRecords (hd demo_records))]"
    by (simp add: demo_defs program_defs)
  ultimately show ?thesis by blast
qed

text \<open>
  C7, as amended. In a run of \<^verbatim>\<open>Read\<close>, under every schedule, the results a goroutine
  has handed to \<^verbatim>\<open>f\<close> are the decoded rows its iterator has produced, one call for each
  row and in the order of the rows, with one exception: a row that the decoder rejects is
  not handed to \<^verbatim>\<open>f\<close>; it is the last row, and the goroutine has returned the decoder's
  error. Within a step the row is produced before it is handed to \<^verbatim>\<open>f\<close>. At the moment
  a goroutine calls \<^verbatim>\<open>markStateFinished\<close> every row its iterator produced has been handed
  to \<^verbatim>\<open>f\<close> and \<^verbatim>\<open>f\<close> has returned \<^verbatim>\<open>nil\<close> each time, and after that call the goroutine
  gets no row and calls \<^verbatim>\<open>f\<close> no more.

  The claim as stated, one call of \<^verbatim>\<open>f\<close> for every row, fails for a row that cannot be
  decoded: lines 254-261 return the error before line 273 is reached. The counterexample
  is a run in which the only row of the root partition is such a row.
\<close>

theorem sink_in_stream_order:
  "group_ptr r0 = None \<and> Read env r0 sched = ((r, tr), res) \<and> i < length (tasks r) \<and>
   step env r ch = (r', evs) \<longrightarrow>
     (map (decodeRow env r (token (tasks r ! i))) (produced i tr) = map Inr (delivered i tr) \<or>
      (\<exists>e. tasks r ! i = Returned (token (tasks r ! i)) (Some e) \<and>
           map (decodeRow env r (token (tasks r ! i))) (produced i tr) =
             map Inr (delivered i tr) @ [Inl e])) \<and>
     (Delivered i readResult x \<in> set evs \<longrightarrow>
        (\<exists>row. take 2 evs = [Produced i row, Delivered i readResult x] \<and>
               decodeRow env r (token (tasks r ! i)) row = Inr readResult)) \<and>
     (Finished i tok \<in> set evs \<longrightarrow>
        token (tasks r ! i) = tok \<and>
        map (decodeRow env r tok) (produced i tr) = map Inr (delivered i tr) \<and>
        (\<forall>ev\<in>set tr. case ev of Delivered j rr y \<Rightarrow> j = i \<longrightarrow> y = None | _ \<Rightarrow> True)) \<and>
     (Finished i tok \<in> set tr \<longrightarrow> produced i evs = [] \<and> delivered i evs = [])"
proof (intro impI)
  assume a: "group_ptr r0 = None \<and> Read env r0 sched = ((r, tr), res) \<and>
    i < length (tasks r) \<and> step env r ch = (r', evs)"
  then have inv: "invariant env r tr" by (blast intro: reachable)
  then have hist: "inv_hist r tr" and deliv: "inv_deliv env r tr"
    by (simp_all add: invariant_def)
  from a have lt: "i < length (tasks r)" and s: "step env r ch = (r', evs)" by simp_all
  let ?tok = "token (tasks r ! i)"
  from deliv lt
  have 1: "map (decodeRow env r ?tok) (produced i tr) = map Inr (delivered i tr) \<or>
      (\<exists>e. tasks r ! i = Returned ?tok (Some e) \<and>
           map (decodeRow env r ?tok) (produced i tr) = map Inr (delivered i tr) @ [Inl e])"
    by (auto simp: inv_deliv_def)
  have 2: "\<exists>row. take 2 evs = [Produced i row, Delivered i readResult x] \<and>
      decodeRow env r ?tok row = Inr readResult"
    if "Delivered i readResult x \<in> set evs"
    using s that by (cases rule: step_cases) auto
  have 3: "?tok = tok \<and>
      map (decodeRow env r tok) (produced i tr) = map Inr (delivered i tr) \<and>
      (\<forall>ev\<in>set tr. case ev of Delivered j rr y \<Rightarrow> j = i \<longrightarrow> y = None | _ \<Rightarrow> True)"
    if f: "Finished i tok \<in> set evs"
  proof -
    from s f obtain recs where t: "tasks r ! i = AfterDo tok recs"
      by (cases rule: step_cases) auto
    with 1 have "map (decodeRow env r tok) (produced i tr) = map Inr (delivered i tr)"
      by auto
    moreover have "case ev of Delivered j rr y \<Rightarrow> j = i \<longrightarrow> y = None | _ \<Rightarrow> True"
      if "ev \<in> set tr" for ev
      using inv_hist_event(2) [OF hist that] t by (cases ev) auto
    ultimately show ?thesis using t by simp
  qed
  have 4: "produced i evs = [] \<and> delivered i evs = []" if "Finished i tok \<in> set tr"
    using after_Finished_step [OF hist that s] .
  from 1 2 3 4 show "(map (decodeRow env r ?tok) (produced i tr) = map Inr (delivered i tr) \<or>
      (\<exists>e. tasks r ! i = Returned ?tok (Some e) \<and>
           map (decodeRow env r ?tok) (produced i tr) = map Inr (delivered i tr) @ [Inl e])) \<and>
     (Delivered i readResult x \<in> set evs \<longrightarrow>
        (\<exists>row. take 2 evs = [Produced i row, Delivered i readResult x] \<and>
               decodeRow env r ?tok row = Inr readResult)) \<and>
     (Finished i tok \<in> set evs \<longrightarrow>
        ?tok = tok \<and>
        map (decodeRow env r tok) (produced i tr) = map Inr (delivered i tr) \<and>
        (\<forall>ev\<in>set tr. case ev of Delivered j rr y \<Rightarrow> j = i \<longrightarrow> y = None | _ \<Rightarrow> True)) \<and>
     (Finished i tok \<in> set tr \<longrightarrow> produced i evs = [] \<and> delivered i evs = [])"
    by blast
qed

theorem sink_in_stream_order_witness:
  "snd (step demo_env (fst (fst (Read demo_env demo_reader (take 4 demo_schedule))))
          (demo_choice 0 IteratorDone)) = [Finished 0 []] \<and>
   produced 0 (snd (fst (Read demo_env demo_reader (take 4 demo_schedule)))) =
     [Some demo_records] \<and>
   delivered 0 (snd (fst (Read demo_env demo_reader (take 4 demo_schedule)))) =
     [\<lparr>PartitionToken = [], ChangeRecords = demo_records\<rparr>] \<and>
   map (decodeRow demo_env (fst (fst (Read demo_env demo_reader (take 4 demo_schedule)))) [])
     (produced 0 (snd (fst (Read demo_env demo_reader (take 4 demo_schedule))))) =
   map Inr (delivered 0 (snd (fst (Read demo_env demo_reader (take 4 demo_schedule))))) \<and>
   snd (step demo_env (fst (fst (Read demo_env demo_reader (take 2 demo_schedule))))
          (demo_choice 0 (Row (Some demo_records)))) =
     [Produced 0 (Some demo_records),
      Delivered 0 \<lparr>PartitionToken = [], ChangeRecords = demo_records\<rparr> None]"
proof -
  let ?s = "Read demo_env demo_reader (take 4 demo_schedule)"
  let ?st = "step demo_env (fst (fst ?s)) (demo_choice 0 IteratorDone)"
  note t = sink_in_stream_order [of demo_reader demo_env "take 4 demo_schedule"
      "fst (fst ?s)" "snd (fst ?s)" "snd ?s" 0 "demo_choice 0 IteratorDone" "fst ?st" "snd ?st"
      "\<lparr>PartitionToken = [], ChangeRecords = demo_records\<rparr>" None "[]"]
  have g: "group_ptr demo_reader = None" by (simp add: demo_reader_def)
  have lt: "0 < length (tasks (fst (fst ?s)))"
    by (simp add: demo_defs program_defs)
  have ev: "snd ?st = [Finished 0 []]"
    by (simp add: demo_defs program_defs)
  have m: "Finished 0 [] \<in> set (snd ?st)" unfolding ev by simp
  have "?s = ((fst (fst ?s), snd (fst ?s)), snd ?s) \<and> ?st = (fst ?st, snd ?st)" by simp
  with t g lt m
  have 1: "map (decodeRow demo_env (fst (fst ?s)) []) (produced 0 (snd (fst ?s))) =
      map Inr (delivered 0 (snd (fst ?s)))"
    by blast
  have 2: "produced 0 (snd (fst ?s)) = [Some demo_records]"
    "delivered 0 (snd (fst ?s)) = [\<lparr>PartitionToken = [], ChangeRecords = demo_records\<rparr>]"
    by (simp_all add: demo_env_def demo_reader_def demo_choice_def demo_schedule_def
        program_defs)
  have 3: "snd (step demo_env (fst (fst (Read demo_env demo_reader (take 2 demo_schedule))))
          (demo_choice 0 (Row (Some demo_records)))) =
     [Produced 0 (Some demo_records),
      Delivered 0 \<lparr>PartitionToken = [], ChangeRecords = demo_records\<rparr> None]"
    by (simp add: demo_env_def demo_reader_def demo_choice_def demo_schedule_def
        program_defs)
  from 1 2 3 ev show ?thesis by blast
qed

theorem sink_once_per_row_counterexample:
  "produced 0 (snd (fst (Read demo_env demo_reader demo_undecodable))) = [None] \<and>
   delivered 0 (snd (fst (Read demo_env demo_reader demo_undecodable))) = [] \<and>
   length (delivered 0 (snd (fst (Read demo_env demo_reader demo_undecodable)))) \<noteq>
   length (produced 0 (snd (fst (Read demo_env demo_reader demo_undecodable)))) \<and>
   snd (fst (Read demo_env demo_reader demo_undecodable)) =
     [Claim 0 [] True, Produced 0 None, Exit 0 (Some (Collaborator ''row''))] \<and>
   snd (Read demo_env demo_reader demo_undecodable) = Some (Some (Collaborator ''row''))"
  by (simp add: demo_undecodable_def demo_env_def demo_reader_def demo_choice_def program_defs)

text \<open>
  C8. When the token has an entry in \<^verbatim>\<open>states\<close> (it is being read or is finished),
  the claim of \<^verbatim>\<open>startRead\<close> fails and \<^verbatim>\<open>startRead\<close> returns \<^verbatim>\<open>nil\<close> in the same
  step: the reader is returned as it was, no row is asked of a stream and \<^verbatim>\<open>f\<close> is not
  called. In a run of \<^verbatim>\<open>Read\<close>, a goroutine whose claim has failed has caused two
  events and no other, ever: the failed claim and its return of \<^verbatim>\<open>nil\<close>.
\<close>

theorem startRead_claim_fails:
  "(states r1 tok \<noteq> None \<longrightarrow>
      startRead_entry i r1 tok start =
        (r1, Returned tok None, [Claim i tok False, Exit i None :: 'row event])) \<and>
   (goroutine ch = i \<and> i < length (tasks r1) \<and> tasks r1 ! i = AtEntry tok start \<and>
    states r1 tok \<noteq> None \<longrightarrow>
      snd (step env r1 ch) = [Claim i tok False, Exit i None] \<and>
      states (fst (step env r1 ch)) = states r1 \<and>
      tasks (fst (step env r1 ch)) = (tasks r1)[i := Returned tok None]) \<and>
   (Read env r0 sched = ((r, tr), res) \<and> Claim i tok False \<in> set tr \<longrightarrow>
      history i tr = [Claim i tok False, Exit i None] \<and>
      produced i tr = [] \<and> delivered i tr = [] \<and>
      tasks r ! i = Returned tok None)"
proof (intro conjI impI)
  assume "states r1 tok \<noteq> None"
  then show "startRead_entry i r1 tok start =
      (r1, Returned tok None, [Claim i tok False, Exit i None :: 'row event])"
    by (auto simp: startRead_entry_def markStateReading_def)
next
  assume a: "goroutine ch = i \<and> i < length (tasks r1) \<and> tasks r1 ! i = AtEntry tok start \<and>
    states r1 tok \<noteq> None"
  obtain r' evs where s: "step env r1 ch = (r', evs)" by (cases "step env r1 ch")
  from s a have "evs = [Claim i tok False, Exit i None] \<and> states r' = states r1 \<and>
      tasks r' = (tasks r1)[i := Returned tok None]"
    by (cases rule: step_cases) auto
  with s show "snd (step env r1 ch) = [Claim i tok False, Exit i None]"
    and "states (fst (step env r1 ch)) = states r1"
    and "tasks (fst (step env r1 ch)) = (tasks r1)[i := Returned tok None]"
    by simp_all
next
  assume a: "Read env r0 sched = ((r, tr), res) \<and> Claim i tok False \<in> set tr"
  then have "invariant env r tr" by (blast intro: Read_trace)
  from inv_hist_refused_history [OF this] a
  have h: "history i tr = [Claim i tok False, Exit i None]" and t: "tasks r ! i = Returned tok None"
    by blast+
  from h show "history i tr = [Claim i tok False, Exit i None]" .
  from t show "tasks r ! i = Returned tok None" .
  from h produced_history [of i tr] show "produced i tr = []" by simp
  from h delivered_history [of i tr] show "delivered i tr = []" by simp
qed

theorem startRead_claim_fails_witness:
  "snd (step demo_env (fst (fst (Read demo_env demo_reader (take 12 demo_schedule))))
          (demo_choice 2 IteratorDone)) = [Claim 2 ''A'' False, Exit 2 None] \<and>
   states (fst (step demo_env (fst (fst (Read demo_env demo_reader (take 12 demo_schedule))))
          (demo_choice 2 IteratorDone))) =
     states (fst (fst (Read demo_env demo_reader (take 12 demo_schedule)))) \<and>
   history 2 (snd (fst (Read demo_env demo_reader demo_schedule))) =
     [Claim 2 ''A'' False, Exit 2 None] \<and>
   tasks (fst (fst (Read demo_env demo_reader demo_schedule))) ! 2 = Returned ''A'' None"
proof -
  let ?s = "Read demo_env demo_reader demo_schedule"
  let ?s' = "Read demo_env demo_reader (take 12 demo_schedule)"
  note t = startRead_claim_fails [of "fst (fst ?s')" "''A''" 2 7 "demo_choice 2 IteratorDone"
      demo_env demo_reader demo_schedule "fst (fst ?s)" "snd (fst ?s)" "snd ?s"]
  have "goroutine (demo_choice 2 IteratorDone) = 2 \<and> 2 < length (tasks (fst (fst ?s'))) \<and>
    tasks (fst (fst ?s')) ! 2 = AtEntry ''A'' 7 \<and> states (fst (fst ?s')) ''A'' \<noteq> None"
    by (simp add: demo_defs program_defs)
  with t have 1: "snd (step demo_env (fst (fst ?s')) (demo_choice 2 IteratorDone)) =
      [Claim 2 ''A'' False, Exit 2 None] \<and>
      states (fst (step demo_env (fst (fst ?s')) (demo_choice 2 IteratorDone))) =
      states (fst (fst ?s'))"
    by blast
  have "?s = ((fst (fst ?s), snd (fst ?s)), snd ?s) \<and>
    Claim 2 ''A'' False \<in> set (snd (fst ?s))"
    by (simp add: demo_defs program_defs)
  with t have 2: "history 2 (snd (fst ?s)) = [Claim 2 ''A'' False, Exit 2 None] \<and>
      tasks (fst (fst ?s)) ! 2 = Returned ''A'' None"
    by blast
  from 1 2 show ?thesis by blast
qed

text \<open>
  C9. On a reader whose \<^verbatim>\<open>group\<close> field is not set, \<^verbatim>\<open>Read\<close> registers exactly one
  goroutine, the root closure; when it runs, it calls \<^verbatim>\<open>startRead\<close> with the empty
  partition token and with the configured start timestamp, or with the current time if
  that timestamp is zero. Every other goroutine of the run was started by a
  \<^verbatim>\<open>r.group.Go\<close> of \<^verbatim>\<open>startRead\<close>. \<^verbatim>\<open>Read\<close> is blocked in \<^verbatim>\<open>Wait\<close> exactly
  as long as some goroutine has not returned, and then returns what \<^verbatim>\<open>Wait\<close> yields:
  the group's first error, or \<^verbatim>\<open>nil\<close>.
\<close>

theorem Read_first_call:
  assumes "group_ptr r0 = None"
  shows "Read_enter r0 =
           (r0\<lparr>group_ptr := Some \<lparr>goroutines = [RootClosure], wg = 1, err = None\<rparr>\<rparr>, None) \<and>
         (goroutine ch = 0 \<longrightarrow>
            step env (fst (Read_enter r0)) ch =
              (r0\<lparr>group_ptr := Some \<lparr>goroutines =
                    [AtEntry [] (if IsZero (startTimestamp r0) then now ch
                                 else startTimestamp r0)],
                  wg = 1, err = None\<rparr>\<rparr>, [])) \<and>
         (Read env r0 sched = ((r, tr), res) \<longrightarrow>
            length (tasks r) = 1 + spawns tr \<and>
            startTimestamp r = startTimestamp r0 \<and>
            (tasks r ! 0 = RootClosure \<or> token (tasks r ! 0) = []) \<and>
            res = (if outstanding r = 0 then Some (firstError r) else None) \<and>
            (res = None) = (\<exists>t\<in>set (tasks r). \<not> isReturned t))"
proof (intro conjI impI)
  show enter: "Read_enter r0 =
      (r0\<lparr>group_ptr := Some \<lparr>goroutines = [RootClosure], wg = 1, err = None\<rparr>\<rparr>, None)"
    using assms by (simp add: Read_enter_def Go_def WithContext_def)
  assume "goroutine ch = 0"
  then show "step env (fst (Read_enter r0)) ch =
      (r0\<lparr>group_ptr := Some \<lparr>goroutines =
            [AtEntry [] (if IsZero (startTimestamp r0) then now ch else startTimestamp r0)],
          wg = 1, err = None\<rparr>\<rparr>, [])"
    by (simp add: enter step_def rootClosure_def settle_def Let_def)
next
  assume run: "Read env r0 sched = ((r, tr), res)"
  note inv = reachable [OF assms run]
  from inv show "length (tasks r) = 1 + spawns tr"
    by (simp add: invariant_def inv_len_def)
  from reachable_frame [OF assms run] show "startTimestamp r = startTimestamp r0" by simp
  from reachable_root [OF assms run]
  show "tasks r ! 0 = RootClosure \<or> token (tasks r ! 0) = []"
    by (simp add: inv_root_def)
  from inv obtain g where g: "group_ptr r = Some g" by (auto simp: invariant_def)
  with Read_started(2) [OF assms run]
  show res: "res = (if outstanding r = 0 then Some (firstError r) else None)"
    by (simp add: Wait_def outstanding_def firstError_def)
  from inv have "outstanding r = length (filter (\<lambda>t. \<not> isReturned t) (tasks r))"
    by (simp add: invariant_def inv_wg_def)
  with res show "(res = None) = (\<exists>t\<in>set (tasks r). \<not> isReturned t)"
    by (auto simp: filter_empty_conv)
qed

theorem Read_first_call_witness:
  "Read_enter demo_reader =
     (demo_reader\<lparr>group_ptr := Some \<lparr>goroutines = [RootClosure], wg = 1, err = None\<rparr>\<rparr>, None) \<and>
   step demo_env (fst (Read_enter demo_reader)) (demo_choice 0 IteratorDone) =
     (demo_reader\<lparr>group_ptr := Some \<lparr>goroutines = [AtEntry [] 5], wg = 1, err = None\<rparr>\<rparr>, []) \<and>
   length (tasks (fst (fst (Read demo_env demo_reader demo_schedule)))) = 3 \<and>
   spawns (snd (fst (Read demo_env demo_reader demo_schedule))) = 2 \<and>
   snd (Read demo_env demo_reader demo_schedule) = Some (Some (Collaborator ''stream'')) \<and>
   snd (Read demo_env demo_reader (take 12 demo_schedule)) = None"
proof -
  let ?s = "Read demo_env demo_reader demo_schedule"
  let ?s' = "Read demo_env demo_reader (take 12 demo_schedule)"
  have g: "group_ptr demo_reader = None" by (simp add: demo_reader_def)
  have c: "goroutine (demo_choice 0 IteratorDone) = 0" by (simp add: demo_choice_def)
  have s: "?s = ((fst (fst ?s), snd (fst ?s)), snd ?s)" by simp
  have s': "?s' = ((fst (fst ?s'), snd (fst ?s')), snd ?s')" by simp
  have z: "IsZero (startTimestamp demo_reader)" "now (demo_choice 0 IteratorDone) = 5"
    by (simp_all add: IsZero_def demo_reader_def demo_choice_def)
  have o: "outstanding (fst (fst ?s)) = 0"
    "firstError (fst (fst ?s)) = Some (Collaborator ''stream'')"
    "spawns (snd (fst ?s)) = 2"
    "outstanding (fst (fst ?s')) = 2"
    by (simp_all add: demo_defs program_defs firstError_def spawns_def)
  note t = Read_first_call [OF g, of "demo_choice 0 IteratorDone" demo_env demo_schedule
      "fst (fst ?s)" "snd (fst ?s)" "snd ?s"]
  note t' = Read_first_call [OF g, of "demo_choice 0 IteratorDone" demo_env
      "take 12 demo_schedule" "fst (fst ?s')" "snd (fst ?s')" "snd ?s'"]
  from t have e1: "Read_enter demo_reader =
     (demo_reader\<lparr>group_ptr := Some \<lparr>goroutines = [RootClosure], wg = 1, err = None\<rparr>\<rparr>, None)"
    by (rule conjunct1)
  from t c have "step demo_env (fst (Read_enter demo_reader)) (demo_choice 0 IteratorDone) =
     (demo_reader\<lparr>group_ptr := Some \<lparr>goroutines =
        [AtEntry [] (if IsZero (startTimestamp demo_reader) then now (demo_choice 0 IteratorDone)
                     else startTimestamp demo_reader)], wg = 1, err = None\<rparr>\<rparr>, [])"
    by blast
  with z have e2: "step demo_env (fst (Read_enter demo_reader)) (demo_choice 0 IteratorDone) =
     (demo_reader\<lparr>group_ptr := Some \<lparr>goroutines = [AtEntry [] 5], wg = 1, err = None\<rparr>\<rparr>, [])"
    by simp
  from t s have "length (tasks (fst (fst ?s))) = 1 + spawns (snd (fst ?s)) \<and>
      snd ?s = (if outstanding (fst (fst ?s)) = 0 then Some (firstError (fst (fst ?s))) else None)"
    by blast
  with o have e3: "length (tasks (fst (fst ?s))) = 3 \<and> snd ?s = Some (Some (Collaborator ''stream''))"
    by simp
  from t' s' have "snd ?s' =
      (if outstanding (fst (fst ?s')) = 0 then Some (firstError (fst (fst ?s'))) else None)"
    by blast
  with o have e4: "snd ?s' = None" by simp
  from e1 e2 e3 e4 o(3) show ?thesis by blast
qed

text \<open>
  C10. For a child partition whose \<^verbatim>\<open>ParentPartitionTokens\<close> list is empty,
  \<^verbatim>\<open>canReadChild\<close> returns true whatever the registry holds: a goroutine whose loop
  reaches such a child finds it eligible and passes it to \<^verbatim>\<open>r.group.Go\<close> in its next
  two steps, so that a goroutine for the child's token and the record's start timestamp
  is registered, and the registry is not touched.
\<close>

theorem canReadChild_no_parents:
  assumes "ParentPartitionTokens c = []"
    and "goroutine ch = i" and "goroutine ch' = i"
    and "i < length (tasks r)" and "tasks r ! i = ChildLoop tok ((ts, c) # todo)"
  shows "canReadChild r c \<and>
         snd (run env (r, tr) [ch, ch']) = tr @ [Checked i c True, Spawned i c ts] \<and>
         tasks (fst (run env (r, tr) [ch, ch'])) =
           (tasks r)[i := ChildLoop tok todo] @ [AtEntry (Token c) ts] \<and>
         states (fst (run env (r, tr) [ch, ch'])) = states r"
proof -
  from assms(1) have can: "canReadChild r c"
    by (simp add: canReadChild_def)
  obtain r1 evs1 where s1: "step env r ch = (r1, evs1)" by (cases "step env r ch")
  from s1 assms(2,4,5) can
  have r1: "evs1 = [Checked i c True] \<and> states r1 = states r \<and>
    tasks r1 = (tasks r)[i := CallGo tok (ts, c) todo]"
    by (cases rule: step_cases) auto
  obtain r2 evs2 where s2: "step env r1 ch' = (r2, evs2)" by (cases "step env r1 ch'")
  from s2 assms(3,4) r1
  have r2: "evs2 = [Spawned i c ts] \<and> states r2 = states r \<and>
    tasks r2 = (tasks r)[i := ChildLoop tok todo] @ [AtEntry (Token c) ts]"
    by (cases rule: step_cases) auto
  from can s1 s2 r1 r2 show ?thesis by simp
qed

theorem canReadChild_no_parents_witness:
  "canReadChild
     (demo_reader\<lparr>group_ptr := Some \<lparr>goroutines =
        [ChildLoop [] [(9, \<lparr>Token = ''C'', ParentPartitionTokens = []\<rparr>)]],
        wg = 1, err = None\<rparr>\<rparr>)
     \<lparr>Token = ''C'', ParentPartitionTokens = []\<rparr> \<and>
   snd (run demo_env
          (demo_reader\<lparr>group_ptr := Some \<lparr>goroutines =
             [ChildLoop [] [(9, \<lparr>Token = ''C'', ParentPartitionTokens = []\<rparr>)]],
             wg = 1, err = None\<rparr>\<rparr>, [])
          [demo_choice 0 IteratorDone, demo_choice 0 IteratorDone]) =
     [Checked 0 \<lparr>Token = ''C'', ParentPartitionTokens = []\<rparr> True,
      Spawned 0 \<lparr>Token = ''C'', ParentPartitionTokens = []\<rparr> 9] \<and>
   tasks (fst (run demo_env
          (demo_reader\<lparr>group_ptr := Some \<lparr>goroutines =
             [ChildLoop [] [(9, \<lparr>Token = ''C'', ParentPartitionTokens = []\<rparr>)]],
             wg = 1, err = None\<rparr>\<rparr>, [])
          [demo_choice 0 IteratorDone, demo_choice 0 IteratorDone])) =
     [ChildLoop [] [], AtEntry ''C'' 9]"
proof -
  let ?c = "\<lparr>Token = ''C'', ParentPartitionTokens = []\<rparr>"
  let ?r = "demo_reader\<lparr>group_ptr := Some \<lparr>goroutines = [ChildLoop [] [(9, ?c)]],
              wg = 1, err = None\<rparr>\<rparr>"
  have "ParentPartitionTokens ?c = []" by simp
  moreover have "goroutine (demo_choice 0 IteratorDone) = 0" by (simp add: demo_choice_def)
  moreover have "0 < length (tasks ?r)" by (simp add: tasks_def)
  moreover have "tasks ?r ! 0 = ChildLoop [] ((9, ?c) # [])" by (simp add: tasks_def)
  ultimately show ?thesis
    using canReadChild_no_parents [of ?c "demo_choice 0 IteratorDone" 0
        "demo_choice 0 IteratorDone" ?r "[]" 9 "[]" demo_env "[]"]
    by (simp del: run.simps add: tasks_def)
qed

end
